theory Spec2Isabelle
  imports Main
begin

section \<open>Data model\<close>

text \<open>
  A Python \<open>str\<close> is a sequence of code points; it is modelled as a list of
  natural numbers, so that \<open>ord\<close> is the identity on an element and code points above 255
  (which the multilingual table contains) are ordinary elements. A one-character string is
  a one-element list.
\<close>

type_synonym str = "nat list"

text \<open>
  The exceptions the two modules can raise. \<open>IndexError\<close> comes from indexing a list or a
  string out of range; \<open>ValueError\<close> carries its message. The handler of \<open>decompress\<close>
  formats the caught exception into the message of a fresh \<open>ValueError\<close>, which is why a
  message can hold an exception.
\<close>

datatype exn = IndexError | ValueError msg
and msg =
    Chr_arg_not_in_range
  | Solo_procesa_texto_ASCII
  | Desbordamiento_de_buffer
  | Error_de_descompresion exn

text \<open>Python's \<open>chr\<close>: a one-character string, or \<open>ValueError\<close> outside \<open>range(0x110000)\<close>.\<close>

definition chr :: "nat \<Rightarrow> exn + str" where
  "chr i = (if i < 1114112 then Inr [i] else Inl (ValueError Chr_arg_not_in_range))"

text \<open>The slice \<open>xs[i:j]\<close> for non-negative \<open>i\<close> and \<open>j\<close> (both ends are clamped).\<close>

definition slice :: "'a list \<Rightarrow> nat \<Rightarrow> nat \<Rightarrow> 'a list" where
  "slice xs i j = drop i (take j xs)"

text \<open>
  An instance of \<open>Smaz\<close> or \<open>SmazMultilang\<close>: the class attribute \<open>DECODE\<close> and the
  reverse table \<open>_lookup\<close> (here \<open>self_lookup\<close>) that \<open>__init__\<close> builds from it.
\<close>

record smaz =
  DECODE :: "str list"
  self_lookup :: "str \<rightharpoonup> str"

section \<open>The decoding tables\<close>

definition Smaz_DECODE :: "str list" where
  "Smaz_DECODE = [
    \<comment> \<open>0..3: ' '  'the'  'e'  't'\<close>
    [32], [116, 104, 101], [101], [116],
    \<comment> \<open>4..7: 'a'  'of'  'o'  'and'\<close>
    [97], [111, 102], [111], [97, 110, 100],
    \<comment> \<open>8..11: 'i'  'n'  's'  'e '\<close>
    [105], [110], [115], [101, 32],
    \<comment> \<open>12..15: 'r'  ' th'  ' t'  'in'\<close>
    [114], [32, 116, 104], [32, 116], [105, 110],
    \<comment> \<open>16..19: 'he'  'th'  'h'  'he '\<close>
    [104, 101], [116, 104], [104], [104, 101, 32],
    \<comment> \<open>20..23: 'to'  '{U+000D}{U+000A}'  'l'  's '\<close>
    [116, 111], [13, 10], [108], [115, 32],
    \<comment> \<open>24..27: 'd'  ' a'  'an'  'er'\<close>
    [100], [32, 97], [97, 110], [101, 114],
    \<comment> \<open>28..31: 'c'  ' o'  'd '  'on'\<close>
    [99], [32, 111], [100, 32], [111, 110],
    \<comment> \<open>32..35: ' of'  're'  'of '  't '\<close>
    [32, 111, 102], [114, 101], [111, 102, 32], [116, 32],
    \<comment> \<open>36..39: ', '  'is'  'u'  'at'\<close>
    [44, 32], [105, 115], [117], [97, 116],
    \<comment> \<open>40..43: '   '  'n '  'or'  'which'\<close>
    [32, 32, 32], [110, 32], [111, 114], [119, 104, 105, 99, 104],
    \<comment> \<open>44..47: 'f'  'm'  'as'  'it'\<close>
    [102], [109], [97, 115], [105, 116],
    \<comment> \<open>48..51: 'that'  '{U+000A}'  'was'  'en'\<close>
    [116, 104, 97, 116], [10], [119, 97, 115], [101, 110],
    \<comment> \<open>52..55: '  '  ' w'  'es'  ' an'\<close>
    [32, 32], [32, 119], [101, 115], [32, 97, 110],
    \<comment> \<open>56..59: ' i'  '{U+000D}'  'f '  'g'\<close>
    [32, 105], [13], [102, 32], [103],
    \<comment> \<open>60..63: 'p'  'nd'  ' s'  'nd '\<close>
    [112], [110, 100], [32, 115], [110, 100, 32],
    \<comment> \<open>64..67: 'ed '  'w'  'ed'  'http://'\<close>
    [101, 100, 32], [119], [101, 100], [104, 116, 116, 112, 58, 47, 47],
    \<comment> \<open>68..71: 'for'  'te'  'ing'  'y '\<close>
    [102, 111, 114], [116, 101], [105, 110, 103], [121, 32],
    \<comment> \<open>72..75: 'The'  ' c'  'ti'  'r '\<close>
    [84, 104, 101], [32, 99], [116, 105], [114, 32],
    \<comment> \<open>76..79: 'his'  'st'  ' in'  'ar'\<close>
    [104, 105, 115], [115, 116], [32, 105, 110], [97, 114],
    \<comment> \<open>80..83: 'nt'  ','  ' to'  'y'\<close>
    [110, 116], [44], [32, 116, 111], [121],
    \<comment> \<open>84..87: 'ng'  ' h'  'with'  'le'\<close>
    [110, 103], [32, 104], [119, 105, 116, 104], [108, 101],
    \<comment> \<open>88..91: 'al'  'to '  'b'  'ou'\<close>
    [97, 108], [116, 111, 32], [98], [111, 117],
    \<comment> \<open>92..95: 'be'  'were'  ' b'  'se'\<close>
    [98, 101], [119, 101, 114, 101], [32, 98], [115, 101],
    \<comment> \<open>96..99: 'o '  'ent'  'ha'  'ng '\<close>
    [111, 32], [101, 110, 116], [104, 97], [110, 103, 32],
    \<comment> \<open>100..103: 'their'  '{U+0022}'  'hi'  'from'\<close>
    [116, 104, 101, 105, 114], [34], [104, 105], [102, 114, 111, 109],
    \<comment> \<open>104..107: ' f'  'in '  'de'  'ion'\<close>
    [32, 102], [105, 110, 32], [100, 101], [105, 111, 110],
    \<comment> \<open>108..111: 'me'  'v'  '.'  've'\<close>
    [109, 101], [118], [46], [118, 101],
    \<comment> \<open>112..115: 'all'  're '  'ri'  'ro'\<close>
    [97, 108, 108], [114, 101, 32], [114, 105], [114, 111],
    \<comment> \<open>116..119: 'is '  'co'  'f t'  'are'\<close>
    [105, 115, 32], [99, 111], [102, 32, 116], [97, 114, 101],
    \<comment> \<open>120..123: 'ea'  '. '  'her'  ' m'\<close>
    [101, 97], [46, 32], [104, 101, 114], [32, 109],
    \<comment> \<open>124..127: 'er '  ' p'  'es '  'by'\<close>
    [101, 114, 32], [32, 112], [101, 115, 32], [98, 121],
    \<comment> \<open>128..131: 'they'  'di'  'ra'  'ic'\<close>
    [116, 104, 101, 121], [100, 105], [114, 97], [105, 99],
    \<comment> \<open>132..135: 'not'  's, '  'd t'  'at '\<close>
    [110, 111, 116], [115, 44, 32], [100, 32, 116], [97, 116, 32],
    \<comment> \<open>136..139: 'ce'  'la'  'h '  'ne'\<close>
    [99, 101], [108, 97], [104, 32], [110, 101],
    \<comment> \<open>140..143: 'as '  'tio'  'on '  'n t'\<close>
    [97, 115, 32], [116, 105, 111], [111, 110, 32], [110, 32, 116],
    \<comment> \<open>144..147: 'io'  'we'  ' a '  'om'\<close>
    [105, 111], [119, 101], [32, 97, 32], [111, 109],
    \<comment> \<open>148..151: ', a'  's o'  'ur'  'li'\<close>
    [44, 32, 97], [115, 32, 111], [117, 114], [108, 105],
    \<comment> \<open>152..155: 'll'  'ch'  'had'  'this'\<close>
    [108, 108], [99, 104], [104, 97, 100], [116, 104, 105, 115],
    \<comment> \<open>156..159: 'e t'  'g '  'e{U+000D}{U+000A}'  ' wh'\<close>
    [101, 32, 116], [103, 32], [101, 13, 10], [32, 119, 104],
    \<comment> \<open>160..163: 'ere'  ' co'  'e o'  'a '\<close>
    [101, 114, 101], [32, 99, 111], [101, 32, 111], [97, 32],
    \<comment> \<open>164..167: 'us'  ' d'  'ss'  '{U+000A}{U+000D}{U+000A}'\<close>
    [117, 115], [32, 100], [115, 115], [10, 13, 10],
    \<comment> \<open>168..171: '{U+000D}{U+000A}{U+000D}'  '={U+0022}'  ' be'  ' e'\<close>
    [13, 10, 13], [61, 34], [32, 98, 101], [32, 101],
    \<comment> \<open>172..175: 's a'  'ma'  'one'  't t'\<close>
    [115, 32, 97], [109, 97], [111, 110, 101], [116, 32, 116],
    \<comment> \<open>176..179: 'or '  'but'  'el'  'so'\<close>
    [111, 114, 32], [98, 117, 116], [101, 108], [115, 111],
    \<comment> \<open>180..183: 'l '  'e s'  's,'  'no'\<close>
    [108, 32], [101, 32, 115], [115, 44], [110, 111],
    \<comment> \<open>184..187: 'ter'  ' wa'  'iv'  'ho'\<close>
    [116, 101, 114], [32, 119, 97], [105, 118], [104, 111],
    \<comment> \<open>188..191: 'e a'  ' r'  'hat'  's t'\<close>
    [101, 32, 97], [32, 114], [104, 97, 116], [115, 32, 116],
    \<comment> \<open>192..195: 'ns'  'ch '  'wh'  'tr'\<close>
    [110, 115], [99, 104, 32], [119, 104], [116, 114],
    \<comment> \<open>196..199: 'ut'  '/'  'have'  'ly '\<close>
    [117, 116], [47], [104, 97, 118, 101], [108, 121, 32],
    \<comment> \<open>200..203: 'ta'  ' ha'  ' on'  'tha'\<close>
    [116, 97], [32, 104, 97], [32, 111, 110], [116, 104, 97],
    \<comment> \<open>204..207: '-'  ' l'  'ati'  'en '\<close>
    [45], [32, 108], [97, 116, 105], [101, 110, 32],
    \<comment> \<open>208..211: 'pe'  ' re'  'there'  'ass'\<close>
    [112, 101], [32, 114, 101], [116, 104, 101, 114, 101], [97, 115, 115],
    \<comment> \<open>212..215: 'si'  ' fo'  'wa'  'ec'\<close>
    [115, 105], [32, 102, 111], [119, 97], [101, 99],
    \<comment> \<open>216..219: 'our'  'who'  'its'  'z'\<close>
    [111, 117, 114], [119, 104, 111], [105, 116, 115], [122],
    \<comment> \<open>220..223: 'fo'  'rs'  '{U+003E}'  'ot'\<close>
    [102, 111], [114, 115], [62], [111, 116],
    \<comment> \<open>224..227: 'un'  '{U+003C}'  'im'  'th '\<close>
    [117, 110], [60], [105, 109], [116, 104, 32],
    \<comment> \<open>228..231: 'nc'  'ate'  '{U+003E}{U+003C}'  'ver'\<close>
    [110, 99], [97, 116, 101], [62, 60], [118, 101, 114],
    \<comment> \<open>232..235: 'ad'  ' we'  'ly'  'ee'\<close>
    [97, 100], [32, 119, 101], [108, 121], [101, 101],
    \<comment> \<open>236..239: ' n'  'id'  ' cl'  'ac'\<close>
    [32, 110], [105, 100], [32, 99, 108], [97, 99],
    \<comment> \<open>240..243: 'il'  '{U+003C}/'  'rt'  ' wi'\<close>
    [105, 108], [60, 47], [114, 116], [32, 119, 105],
    \<comment> \<open>244..247: 'div'  'e, '  ' it'  'whi'\<close>
    [100, 105, 118], [101, 44, 32], [32, 105, 116], [119, 104, 105],
    \<comment> \<open>248..251: ' ma'  'ge'  'x'  'e c'\<close>
    [32, 109, 97], [103, 101], [120], [101, 32, 99],
    \<comment> \<open>252..253: 'men'  '.com'\<close>
    [109, 101, 110], [46, 99, 111, 109]
  ]"

definition SmazMultilang_DECODE :: "str list" where
  "SmazMultilang_DECODE = [
    \<comment> \<open>0..3: ' '  'e'  'a'  'o'\<close>
    [32], [101], [97], [111],
    \<comment> \<open>4..7: 'n'  'i'  's'  'r'\<close>
    [110], [105], [115], [114],
    \<comment> \<open>8..11: 'l'  't'  'd'  'c'\<close>
    [108], [116], [100], [99],
    \<comment> \<open>12..15: 'm'  'u'  'p'  'b'\<close>
    [109], [117], [112], [98],
    \<comment> \<open>16..19: 'g'  'v'  'f'  'y'\<close>
    [103], [118], [102], [121],
    \<comment> \<open>20..23: 'h'  'j'  'k'  'w'\<close>
    [104], [106], [107], [119],
    \<comment> \<open>24..27: 'z'  'x'  'q'  'en'\<close>
    [122], [120], [113], [101, 110],
    \<comment> \<open>28..31: 'es'  'de'  'la'  'el'\<close>
    [101, 115], [100, 101], [108, 97], [101, 108],
    \<comment> \<open>32..35: 'ar'  'on'  'in'  'or'\<close>
    [97, 114], [111, 110], [105, 110], [111, 114],
    \<comment> \<open>36..39: 'er'  'an'  'te'  'ra'\<close>
    [101, 114], [97, 110], [116, 101], [114, 97],
    \<comment> \<open>40..43: 'al'  'st'  'nt'  'to'\<close>
    [97, 108], [115, 116], [110, 116], [116, 111],
    \<comment> \<open>44..47: 're'  'll'  'co'  'le'\<close>
    [114, 101], [108, 108], [99, 111], [108, 101],
    \<comment> \<open>48..51: 'se'  'os'  'as'  'ta'\<close>
    [115, 101], [111, 115], [97, 115], [116, 97],
    \<comment> \<open>52..55: 'nd'  'me'  'lo'  'ro'\<close>
    [110, 100], [109, 101], [108, 111], [114, 111],
    \<comment> \<open>56..59: 'po'  'qu'  'di'  'ca'\<close>
    [112, 111], [113, 117], [100, 105], [99, 97],
    \<comment> \<open>60..63: 'si'  'ti'  'li'  'do'\<close>
    [115, 105], [116, 105], [108, 105], [100, 111],
    \<comment> \<open>64..67: 'tr'  'ma'  'ch'  'ue'\<close>
    [116, 114], [109, 97], [99, 104], [117, 101],
    \<comment> \<open>68..71: 'ci'  'pr'  'pa'  'ri'\<close>
    [99, 105], [112, 114], [112, 97], [114, 105],
    \<comment> \<open>72..75: 'su'  'mi'  'mo'  'un'\<close>
    [115, 117], [109, 105], [109, 111], [117, 110],
    \<comment> \<open>76..79: 'ha'  'no'  'ya'  'que'\<close>
    [104, 97], [110, 111], [121, 97], [113, 117, 101],
    \<comment> \<open>80..83: 'con'  'los'  'las'  'por'\<close>
    [99, 111, 110], [108, 111, 115], [108, 97, 115], [112, 111, 114],
    \<comment> \<open>84..87: 'una'  'para'  'del'  'est{U+00E1}'\<close>
    [117, 110, 97], [112, 97, 114, 97], [100, 101, 108], [101, 115, 116, 225],
    \<comment> \<open>88..91: 'pero'  'm{U+00E1}s'  'como'  'bien'\<close>
    [112, 101, 114, 111], [109, 225, 115], [99, 111, 109, 111], [98, 105, 101, 110],
    \<comment> \<open>92..95: 'todo'  'esta'  'cada'  'sobre'\<close>
    [116, 111, 100, 111], [101, 115, 116, 97], [99, 97, 100, 97], [115, 111, 98, 114, 101],
    \<comment> \<open>96..99: 'entre'  'muy'  'hay'  'debe'\<close>
    [101, 110, 116, 114, 101], [109, 117, 121], [104, 97, 121], [100, 101, 98, 101],
    \<comment> \<open>100..103: 'as{U+00ED}'  'poco'  'algo'  'solo'\<close>
    [97, 115, 237], [112, 111, 99, 111], [97, 108, 103, 111], [115, 111, 108, 111],
    \<comment> \<open>104..107: 'ci{U+00F3}n'  'mente'  'dad'  'ado'\<close>
    [99, 105, 243, 110], [109, 101, 110, 116, 101], [100, 97, 100], [97, 100, 111],
    \<comment> \<open>108..111: 'ido'  'ando'  'the'  'and'\<close>
    [105, 100, 111], [97, 110, 100, 111], [116, 104, 101], [97, 110, 100],
    \<comment> \<open>112..115: 'ing'  'of'  'to'  'is'\<close>
    [105, 110, 103], [111, 102], [116, 111], [105, 115],
    \<comment> \<open>116..119: 'that'  'for'  'you'  'not'\<close>
    [116, 104, 97, 116], [102, 111, 114], [121, 111, 117], [110, 111, 116],
    \<comment> \<open>120..123: 'with'  'this'  'are'  'have'\<close>
    [119, 105, 116, 104], [116, 104, 105, 115], [97, 114, 101], [104, 97, 118, 101],
    \<comment> \<open>124..127: 'be'  'they'  'from'  'at'\<close>
    [98, 101], [116, 104, 101, 121], [102, 114, 111, 109], [97, 116],
    \<comment> \<open>128..131: 'one'  'all'  'by'  'was'\<close>
    [111, 110, 101], [97, 108, 108], [98, 121], [119, 97, 115],
    \<comment> \<open>132..135: 'were'  'what'  'when'  'how'\<close>
    [119, 101, 114, 101], [119, 104, 97, 116], [119, 104, 101, 110], [104, 111, 119],
    \<comment> \<open>136..139: 'tion'  'able'  'ive'  'ed'\<close>
    [116, 105, 111, 110], [97, 98, 108, 101], [105, 118, 101], [101, 100],
    \<comment> \<open>140..143: 'ly'  'et'  'dans'  'pour'\<close>
    [108, 121], [101, 116], [100, 97, 110, 115], [112, 111, 117, 114],
    \<comment> \<open>144..147: 'les'  'des'  'est'  'che'\<close>
    [108, 101, 115], [100, 101, 115], [101, 115, 116], [99, 104, 101],
    \<comment> \<open>148..151: 'per'  'non'  'sono'  'uma'\<close>
    [112, 101, 114], [110, 111, 110], [115, 111, 110, 111], [117, 109, 97],
    \<comment> \<open>152..155: 'das'  'der'  'das'  'und'\<close>
    [100, 97, 115], [100, 101, 114], [100, 97, 115], [117, 110, 100],
    \<comment> \<open>156..159: 'ist'  'den'  'ein'  'qui'\<close>
    [105, 115, 116], [100, 101, 110], [101, 105, 110], [113, 117, 105],
    \<comment> \<open>160..163: 'par'  'dans'  'com'  'ne'\<close>
    [112, 97, 114], [100, 97, 110, 115], [99, 111, 109], [110, 101],
    \<comment> \<open>164..167: 'au'  '{U+00E7}a'  'ce'  'je'\<close>
    [97, 117], [231, 97], [99, 101], [106, 101],
    \<comment> \<open>168..171: 'tu'  'il'  'da'  'na'\<close>
    [116, 117], [105, 108], [100, 97], [110, 97],
    \<comment> \<open>172..175: 'em'  'vor'  'nach'  'bei'\<close>
    [101, 109], [118, 111, 114], [110, 97, 99, 104], [98, 101, 105],
    \<comment> \<open>176..179: 'zum'  '{U+00E1}'  '{U+00E9}'  '{U+00ED}'\<close>
    [122, 117, 109], [225], [233], [237],
    \<comment> \<open>180..183: '{U+00F3}'  '{U+00FA}'  '{U+00FC}'  '{U+00F1}'\<close>
    [243], [250], [252], [241],
    \<comment> \<open>184..187: '{U+00E7}'  '{U+00E3}'  '{U+00F5}'  '{U+00E2}'\<close>
    [231], [227], [245], [226],
    \<comment> \<open>188..191: '{U+00EA}'  '{U+00EE}'  '{U+00F4}'  '{U+00FB}'\<close>
    [234], [238], [244], [251],
    \<comment> \<open>192..195: '{U+00E0}'  '{U+00E8}'  '{U+00EC}'  '{U+00F2}'\<close>
    [224], [232], [236], [242],
    \<comment> \<open>196..199: '{U+00F9}'  '{U+00E4}'  '{U+00EB}'  '{U+00EF}'\<close>
    [249], [228], [235], [239],
    \<comment> \<open>200..203: '{U+00F6}'  '{U+00FC}'  '{U+00DF}'  '.'\<close>
    [246], [252], [223], [46],
    \<comment> \<open>204..207: ','  ':'  ';'  '?'\<close>
    [44], [58], [59], [63],
    \<comment> \<open>208..211: '!'  '{U+0028}'  '{U+0029}'  '-'\<close>
    [33], [40], [41], [45],
    \<comment> \<open>212..215: '/'  '{U+0027}'  '{U+0022}'  '{U+000A}'\<close>
    [47], [39], [34], [10],
    \<comment> \<open>216..219: '{U+000D}'  '{U+000D}{U+000A}'  '0'  '1'\<close>
    [13], [13, 10], [48], [49],
    \<comment> \<open>220..223: '2'  '3'  '4'  '5'\<close>
    [50], [51], [52], [53],
    \<comment> \<open>224..227: '6'  '7'  '8'  '9'\<close>
    [54], [55], [56], [57],
    \<comment> \<open>228..231: '10'  '20'  '30'  '00'\<close>
    [49, 48], [50, 48], [51, 48], [48, 48],
    \<comment> \<open>232..235: 'http://'  'https://'  '.com'  '.org'\<close>
    [104, 116, 116, 112, 58, 47, 47], [104, 116, 116, 112, 115, 58, 47, 47], [46, 99, 111, 109], [46, 111, 114, 103],
    \<comment> \<open>236..239: '.net'  '.io'  'www.'  '@'\<close>
    [46, 110, 101, 116], [46, 105, 111], [119, 119, 119, 46], [64],
    \<comment> \<open>240..243: '&'  '%'  '+'  '='\<close>
    [38], [37], [43], [61],
    \<comment> \<open>244..247: '#'  '{U+002A}'  '{U+0024}'  '{U+20AC}'\<close>
    [35], [42], [36], [8364],
    \<comment> \<open>248..251: '{U+00A3}'  '{U+003C}'  '{U+003E}'  '{U+005B}'\<close>
    [163], [60], [62], [91],
    \<comment> \<open>252..255: '{U+005D}'  '{U+007B}'  '{U+007D}'  '_'\<close>
    [93], [123], [125], [95],
    \<comment> \<open>256..259: '{U+007C}'  '{U+005C}'  'ok'  'hi'\<close>
    [124], [92], [111, 107], [104, 105],
    \<comment> \<open>260..263: 'hello'  'yes'  'no'  'hola'\<close>
    [104, 101, 108, 108, 111], [121, 101, 115], [110, 111], [104, 111, 108, 97],
    \<comment> \<open>264..267: 'gracias'  'info'  'help'  'error'\<close>
    [103, 114, 97, 99, 105, 97, 115], [105, 110, 102, 111], [104, 101, 108, 112], [101, 114, 114, 111, 114],
    \<comment> \<open>268..271: 'user'  'name'  'email'  'password'\<close>
    [117, 115, 101, 114], [110, 97, 109, 101], [101, 109, 97, 105, 108], [112, 97, 115, 115, 119, 111, 114, 100],
    \<comment> \<open>272..275: 'login'  'file'  'menu'  'home'\<close>
    [108, 111, 103, 105, 110], [102, 105, 108, 101], [109, 101, 110, 117], [104, 111, 109, 101],
    \<comment> \<open>276..279: 'date'  'time'  'day'  'month'\<close>
    [100, 97, 116, 101], [116, 105, 109, 101], [100, 97, 121], [109, 111, 110, 116, 104],
    \<comment> \<open>280..283: 'year'  '2024'  '2025'  'jan'\<close>
    [121, 101, 97, 114], [50, 48, 50, 52], [50, 48, 50, 53], [106, 97, 110],
    \<comment> \<open>284..287: 'feb'  'mar'  'apr'  'may'\<close>
    [102, 101, 98], [109, 97, 114], [97, 112, 114], [109, 97, 121],
    \<comment> \<open>288..291: 'jun'  'jul'  'aug'  'sep'\<close>
    [106, 117, 110], [106, 117, 108], [97, 117, 103], [115, 101, 112],
    \<comment> \<open>292..295: 'oct'  'nov'  'dec'  'mon'\<close>
    [111, 99, 116], [110, 111, 118], [100, 101, 99], [109, 111, 110],
    \<comment> \<open>296..299: 'tue'  'wed'  'thu'  'fri'\<close>
    [116, 117, 101], [119, 101, 100], [116, 104, 117], [102, 114, 105],
    \<comment> \<open>300..303: 'sat'  'sun'  '{U+00BF}'  '{U+00A1}'\<close>
    [115, 97, 116], [115, 117, 110], [191], [161],
    \<comment> \<open>304..307: '{U+00AB}'  '{U+00BB}'  '{U+201E}'  ', '\<close>
    [171], [187], [8222], [44, 32],
    \<comment> \<open>308..311: '{U+201A}'  '{U+0027}'  '{U+0027}'  '{U+2039}'\<close>
    [8218], [39], [39], [8249],
    \<comment> \<open>312..315: '{U+203A}'  '{U+2013}'  '{U+2014}'  '{U+2026}'\<close>
    [8250], [8211], [8212], [8230]
  ]"

section \<open>Construction\<close>

text \<open>
  \<open>Smaz._create_lookup\<close>: every entry of \<open>DECODE\<close> is stored under its text, a later
  entry overwriting an earlier one with the same text.
\<close>

fun Smaz_create_lookup_loop :: "(nat \<times> str) list \<Rightarrow> (str \<rightharpoonup> str) \<Rightarrow> exn + (str \<rightharpoonup> str)" where
  "Smaz_create_lookup_loop [] lookup = Inr lookup"
| "Smaz_create_lookup_loop ((enc_byte, text) # rest) lookup =
     (case chr enc_byte of
        Inl e \<Rightarrow> Inl e
      | Inr c \<Rightarrow> Smaz_create_lookup_loop rest (lookup(text \<mapsto> c)))"

definition Smaz_create_lookup :: "str list \<Rightarrow> exn + (str \<rightharpoonup> str)" where
  "Smaz_create_lookup D = Smaz_create_lookup_loop (enumerate 0 D) Map.empty"

definition Smaz_init :: "str list \<Rightarrow> exn + smaz" where
  "Smaz_init D =
     (case Smaz_create_lookup D of
        Inl e \<Rightarrow> Inl e
      | Inr lk \<Rightarrow> Inr \<lparr>DECODE = D, self_lookup = lk\<rparr>)"

text \<open>
  \<open>SmazMultilang._create_lookup\<close>: the same loop, left by \<open>break\<close> at the first index
  that is 254 or more.
\<close>

fun SmazMultilang_create_lookup_loop ::
  "(nat \<times> str) list \<Rightarrow> (str \<rightharpoonup> str) \<Rightarrow> exn + (str \<rightharpoonup> str)" where
  "SmazMultilang_create_lookup_loop [] lookup = Inr lookup"
| "SmazMultilang_create_lookup_loop ((enc_byte, text) # rest) lookup =
     (if enc_byte \<ge> 254 then Inr lookup
      else case chr enc_byte of
        Inl e \<Rightarrow> Inl e
      | Inr c \<Rightarrow> SmazMultilang_create_lookup_loop rest (lookup(text \<mapsto> c)))"

definition SmazMultilang_create_lookup :: "str list \<Rightarrow> exn + (str \<rightharpoonup> str)" where
  "SmazMultilang_create_lookup D = SmazMultilang_create_lookup_loop (enumerate 0 D) Map.empty"

definition SmazMultilang_init :: "str list \<Rightarrow> exn + smaz" where
  "SmazMultilang_init D =
     (case SmazMultilang_create_lookup D of
        Inl e \<Rightarrow> Inl e
      | Inr lk \<Rightarrow> Inr \<lparr>DECODE = D, self_lookup = lk\<rparr>)"

section \<open>Compression\<close>

text \<open>\<open>Smaz._is_ascii\<close>; \<open>ord\<close> cannot raise on a character, so the handler is dead.\<close>

fun is_ascii :: "str \<Rightarrow> bool" where
  "is_ascii [] = True"
| "is_ascii (ch # rest) = (if ch \<ge> 128 then False else is_ascii rest)"

text \<open>The check written inline in \<open>SmazMultilang.compress\<close>: raise at the first such character.\<close>

fun check_all_ascii :: "str \<Rightarrow> exn + unit" where
  "check_all_ascii [] = Inr ()"
| "check_all_ascii (ch # rest) =
     (if ch \<ge> 128 then Inl (ValueError Solo_procesa_texto_ASCII) else check_all_ascii rest)"

text \<open>\<open>_worst_size\<close>, the same in both classes.\<close>

definition worst_size :: "nat \<Rightarrow> nat" where
  "worst_size len =
     (if len = 0 then 0
      else if len = 1 then 2
      else
        let full_chunks = len div 255;
            remainder = len mod 255;
            overhead = full_chunks * 2 + (if remainder > 0 then 2 else 0)
        in len + overhead)"

text \<open>
  \<open>_flush_verbatim\<close>, the same in both classes. It mutates both arguments; the model
  returns the pair of them. The buffer is a list of one-character strings in the source and
  the string of those characters here; \<open>output\<close> is the list of the pieces appended so far.
\<close>

definition flush_verbatim :: "str \<Rightarrow> str list \<Rightarrow> exn + (str \<times> str list)" where
  "flush_verbatim buffer output =
     (if buffer = [] then Inr (buffer, output)
      else if length buffer = 1 then
        (case chr 254 of
           Inl e \<Rightarrow> Inl e
         | Inr c254 \<Rightarrow> Inr ([], output @ [c254 @ [buffer ! 0]]))
      else
        (case chr 255 of
           Inl e \<Rightarrow> Inl e
         | Inr c255 \<Rightarrow>
            (case chr (length buffer - 1) of
               Inl e \<Rightarrow> Inl e
             | Inr clen \<Rightarrow> Inr ([], output @ [c255 @ clen] @ [buffer]))))"

text \<open>
  The \<open>for\<close> loop over \<open>match_len\<close>, counting down from its fourth argument to 1 and left
  by \<open>break\<close> at the first hit. The result is the pair \<open>(best_match, best_len)\<close>, which is
  \<open>(None, 0)\<close> when the loop runs out.
\<close>

fun find_match :: "(str \<rightharpoonup> str) \<Rightarrow> str \<Rightarrow> nat \<Rightarrow> nat \<Rightarrow> str option \<times> nat" where
  "find_match lookup text pos 0 = (None, 0)"
| "find_match lookup text pos (Suc n) =
     (let match_len = Suc n;
          substring = slice text pos (pos + match_len)
      in case lookup substring of
           Some code \<Rightarrow> (Some code, match_len)
         | None \<Rightarrow> find_match lookup text pos n)"

text \<open>Python truth of \<open>best_match\<close>: neither \<open>None\<close> nor the empty string.\<close>

fun truthy :: "str option \<Rightarrow> bool" where
  "truthy None = False"
| "truthy (Some s) = (s \<noteq> [])"

lemma find_match_len:
  "find_match lk text pos n = (Some code, l) \<Longrightarrow> 1 \<le> l \<and> l \<le> n"
  by (induction n) (auto simp: Let_def split: option.splits)

lemma find_match_truthy_len:
  "truthy (fst (find_match lk text pos n)) \<Longrightarrow> 1 \<le> snd (find_match lk text pos n)"
  by (cases "find_match lk text pos n"; cases "fst (find_match lk text pos n)")
     (auto dest: find_match_len)

text \<open>
  The \<open>while\<close> loop of \<open>compress\<close>, the same in both classes, with its state
  \<open>(pos, verbatim, output)\<close>.
\<close>

function compress_loop ::
  "(str \<rightharpoonup> str) \<Rightarrow> str \<Rightarrow> nat \<Rightarrow> str \<Rightarrow> str list \<Rightarrow> exn + (str \<times> str list)" where
  "compress_loop lk text pos verbatim output =
     (if pos < length text then
        (let found = find_match lk text pos (min 7 (length text - pos));
             best_match = fst found;
             best_len = snd found
         in if truthy best_match then
              (case flush_verbatim verbatim output of
                 Inl e \<Rightarrow> Inl e
               | Inr (verbatim', output') \<Rightarrow>
                   compress_loop lk text (pos + best_len) verbatim' (output' @ [the best_match]))
            else
              (let verbatim' = verbatim @ [text ! pos] in
               if length verbatim' = 255 then
                 (case flush_verbatim verbatim' output of
                    Inl e \<Rightarrow> Inl e
                  | Inr (verbatim'', output') \<Rightarrow> compress_loop lk text (pos + 1) verbatim'' output')
               else compress_loop lk text (pos + 1) verbatim' output))
      else Inr (verbatim, output))"
  by pat_completeness auto
termination
proof (relation "measure (\<lambda>(lk, text, pos, verbatim, output). length text - pos)", goal_cases)
  case 1
  show ?case by simp
next
  case (2 lk t pos verbatim out found best_match best_len)
  then show ?case using find_match_truthy_len[of lk t pos "min 7 (length t - pos)"]
    by simp
next
  case 3
  then show ?case by simp
next
  case 4
  then show ?case by simp
qed

declare compress_loop.simps [simp del]

text \<open>\<open>_encapsulate\<close>, the same in both classes: the \<open>for\<close> loop over \<open>range(0, len(text), 255)\<close>.\<close>

function encapsulate_loop :: "str \<Rightarrow> nat \<Rightarrow> str list \<Rightarrow> exn + str list" where
  "encapsulate_loop text i output =
     (if i < length text then
        (let chunk = slice text i (i + 255) in
         if length chunk = 1 then
           (case chr 254 of
              Inl e \<Rightarrow> Inl e
            | Inr c254 \<Rightarrow> encapsulate_loop text (i + 255) (output @ [c254 @ chunk]))
         else
           (case chr 255 of
              Inl e \<Rightarrow> Inl e
            | Inr c255 \<Rightarrow>
               (case chr (length chunk - 1) of
                  Inl e \<Rightarrow> Inl e
                | Inr clen \<Rightarrow>
                    encapsulate_loop text (i + 255) (output @ [c255 @ clen] @ [chunk]))))
      else Inr output)"
  by pat_completeness auto
termination
  by (relation "measure (\<lambda>(text, i, output). length text - i)") auto

declare encapsulate_loop.simps [simp del]

definition encapsulate :: "str \<Rightarrow> exn + str" where
  "encapsulate text =
     (if text = [] then Inr text
      else case encapsulate_loop text 0 [] of
        Inl e \<Rightarrow> Inl e
      | Inr output \<Rightarrow> Inr (concat output))"

text \<open>
  The part of \<open>compress\<close> after the checks (from \<open>output = []\<close> to the end), which is the
  same text in both classes.
\<close>

definition compress_body :: "smaz \<Rightarrow> str \<Rightarrow> exn + str" where
  "compress_body self text =
     (case compress_loop (self_lookup self) text 0 [] [] of
        Inl e \<Rightarrow> Inl e
      | Inr (verbatim, output) \<Rightarrow>
         (case flush_verbatim verbatim output of
            Inl e \<Rightarrow> Inl e
          | Inr (verbatim', output') \<Rightarrow>
              (let result = concat output' in
               if length result > worst_size (length text) then encapsulate text
               else Inr result)))"

text \<open>\<open>Smaz.compress\<close> (\<open>check_ascii\<close> defaults to \<open>True\<close> there).\<close>

definition compress :: "smaz \<Rightarrow> str \<Rightarrow> bool \<Rightarrow> exn + str" where
  "compress self text check_ascii =
     (if text = [] then Inr text
      else if check_ascii \<and> \<not> is_ascii text then Inl (ValueError Solo_procesa_texto_ASCII)
      else compress_body self text)"

text \<open>\<open>SmazMultilang.compress\<close> (\<open>check_ascii\<close> defaults to \<open>False\<close> there).\<close>

definition SmazMultilang_compress :: "smaz \<Rightarrow> str \<Rightarrow> bool \<Rightarrow> exn + str" where
  "SmazMultilang_compress self text check_ascii =
     (if text = [] then Inr text
      else case (if check_ascii then check_all_ascii text else Inr ()) of
        Inl e \<Rightarrow> Inl e
      | Inr _ \<Rightarrow> compress_body self text)"

section \<open>Decompression\<close>

text \<open>
  The \<open>while\<close> loop inside the \<open>try\<close> block of \<open>decompress\<close>, the same in both classes.
  Reading \<open>compressed[pos]\<close> past the end and \<open>DECODE[ch]\<close> past the table raise
  \<open>IndexError\<close>. The branch for \<open>ch == 255\<close> is the plain \<open>else\<close> of \<open>ch == 254\<close>.
\<close>

function decompress_loop :: "str list \<Rightarrow> str \<Rightarrow> nat \<Rightarrow> str list \<Rightarrow> exn + str list" where
  "decompress_loop D compressed pos output =
     (if pos < length compressed then
        (let ch = compressed ! pos;
             pos1 = pos + 1
         in if ch < 254 then
              (if ch < length D then decompress_loop D compressed pos1 (output @ [D ! ch])
               else Inl IndexError)
            else if pos1 < length compressed then
              (let next_byte = compressed ! pos1;
                   pos2 = pos1 + 1
               in if ch = 254 then decompress_loop D compressed pos2 (output @ [[next_byte]])
                  else
                    (let end_pos = pos2 + next_byte + 1 in
                     if end_pos > length compressed then Inl (ValueError Desbordamiento_de_buffer)
                     else decompress_loop D compressed end_pos
                            (output @ [slice compressed pos2 end_pos])))
            else Inl IndexError)
      else Inr output)"
  by pat_completeness auto
termination
  by (relation "measure (\<lambda>(D, compressed, pos, output). length compressed - pos)") auto

declare decompress_loop.simps [simp del]

text \<open>
  \<open>decompress\<close>: whatever the loop raises is caught and raised again as a \<open>ValueError\<close>
  whose message holds the caught exception.
\<close>

definition decompress :: "smaz \<Rightarrow> str \<Rightarrow> exn + str" where
  "decompress self compressed =
     (if compressed = [] then Inr compressed
      else case decompress_loop (DECODE self) compressed 0 [] of
        Inl e \<Rightarrow> Inl (ValueError (Error_de_descompresion e))
      | Inr output \<Rightarrow> Inr (concat output))"

section \<open>The module-level singletons\<close>

text \<open>
  Each module keeps one shared instance, built from the class's own table at the first call
  of \<open>get_instance\<close>, and offers \<open>compress\<close> and \<open>decompress\<close> functions that call the
  methods of that instance. The construction depends on nothing but the table, so every call
  of \<open>get_instance\<close> has the same outcome.
\<close>

definition smaz_get_instance :: "exn + smaz" where
  "smaz_get_instance = Smaz_init Smaz_DECODE"

definition smaz_compress :: "str \<Rightarrow> bool \<Rightarrow> exn + str" where
  "smaz_compress text check_ascii =
     (case smaz_get_instance of
        Inl e \<Rightarrow> Inl e
      | Inr self \<Rightarrow> compress self text check_ascii)"

definition smaz_decompress :: "str \<Rightarrow> exn + str" where
  "smaz_decompress compressed =
     (case smaz_get_instance of
        Inl e \<Rightarrow> Inl e
      | Inr self \<Rightarrow> decompress self compressed)"

definition smaz_multilang_get_instance :: "exn + smaz" where
  "smaz_multilang_get_instance = SmazMultilang_init SmazMultilang_DECODE"

definition smaz_multilang_compress :: "str \<Rightarrow> bool \<Rightarrow> exn + str" where
  "smaz_multilang_compress text check_ascii =
     (case smaz_multilang_get_instance of
        Inl e \<Rightarrow> Inl e
      | Inr self \<Rightarrow> SmazMultilang_compress self text check_ascii)"

definition smaz_multilang_decompress :: "str \<Rightarrow> exn + str" where
  "smaz_multilang_decompress compressed =
     (case smaz_multilang_get_instance of
        Inl e \<Rightarrow> Inl e
      | Inr self \<Rightarrow> decompress self compressed)"

section \<open>Auxiliary notions for the proofs\<close>

text \<open>
  The decoder as a recursion on the input that is still to be read. It is shown below to
  compute what \<open>decompress_loop\<close> computes from any position; the proofs about
  streams that are built by appending pieces go through it.
\<close>

function decode_rest :: "str list \<Rightarrow> str \<Rightarrow> exn + str list" where
  "decode_rest D [] = Inr []"
| "decode_rest D (ch # rest) =
     (if ch < 254 then
        (if ch < length D then
           (case decode_rest D rest of Inl e \<Rightarrow> Inl e | Inr r \<Rightarrow> Inr (D ! ch # r))
         else Inl IndexError)
      else
        (case rest of
           [] \<Rightarrow> Inl IndexError
         | next_byte # rest' \<Rightarrow>
             if ch = 254 then
               (case decode_rest D rest' of Inl e \<Rightarrow> Inl e | Inr r \<Rightarrow> Inr ([next_byte] # r))
             else if next_byte + 1 > length rest' then Inl (ValueError Desbordamiento_de_buffer)
             else
               (case decode_rest D (drop (next_byte + 1) rest') of
                  Inl e \<Rightarrow> Inl e
                | Inr r \<Rightarrow> Inr (take (next_byte + 1) rest' # r))))"
  by pat_completeness auto
termination
  by (relation "measure (\<lambda>(D, c). length c)") auto

text \<open>
  \<open>decodes_to D c s\<close>: the stream \<open>c\<close> is read to its end without an exception and the
  pieces read make up \<open>s\<close>.
\<close>

definition decodes_to :: "str list \<Rightarrow> str \<Rightarrow> str \<Rightarrow> bool" where
  "decodes_to D c s = (case decode_rest D c of Inl e \<Rightarrow> False | Inr r \<Rightarrow> concat r = s)"

text \<open>
  What the encoder needs of a reverse table: every code it holds is one character, below 254,
  that indexes an entry of \<open>D\<close> equal to the key.
\<close>

definition lookup_ok :: "str list \<Rightarrow> (str \<rightharpoonup> str) \<Rightarrow> bool" where
  "lookup_ok D lk =
     (\<forall>s code. lk s = Some code \<longrightarrow> (\<exists>i. code = [i] \<and> i < 254 \<and> i < length D \<and> D ! i = s))"

text \<open>
  The units of the wire format: a dictionary index, a single literal behind 254, and a run
  of raw characters behind 255 and its length less one. \<open>serialize\<close> writes a unit out;
  \<open>token_ok\<close> says what the encoder keeps to: an index it emits is below 254 and names an
  entry of one to seven characters, and a run holds 2 to 255 raw characters.
\<close>

datatype token = Entry nat | Literal nat | Run str

fun serialize :: "token \<Rightarrow> str" where
  "serialize (Entry i) = [i]"
| "serialize (Literal b) = [254, b]"
| "serialize (Run raw) = 255 # (length raw - 1) # raw"

fun token_ok :: "str list \<Rightarrow> token \<Rightarrow> bool" where
  "token_ok D (Entry i) = (i < 254 \<and> i < length D \<and> 1 \<le> length (D ! i) \<and> length (D ! i) \<le> 7)"
| "token_ok D (Literal b) = True"
| "token_ok D (Run raw) = (2 \<le> length raw \<and> length raw \<le> 255)"

text \<open>\<open>tokens_of D pieces\<close>: the pieces appended so far spell a sequence of such units.\<close>

definition tokens_of :: "str list \<Rightarrow> str list \<Rightarrow> bool" where
  "tokens_of D pieces =
     (\<exists>ts. concat pieces = concat (map serialize ts) \<and> list_all (token_ok D) ts)"

text \<open>
  What a unit stands for, and the characters of a unit that the decoder reads as control
  values: the index, the escape, and the length byte of a run.
\<close>

fun expand :: "str list \<Rightarrow> token \<Rightarrow> str" where
  "expand D (Entry i) = D ! i"
| "expand D (Literal b) = [b]"
| "expand D (Run raw) = raw"

fun controls :: "token \<Rightarrow> nat list" where
  "controls (Entry i) = [i]"
| "controls (Literal b) = [254]"
| "controls (Run raw) = [255, length raw - 1]"

text \<open>
  The greedy reading of a text, stated on the units and not on the loop. \<open>flushed\<close> is
  the unit a pending buffer becomes. \<open>no_match_at\<close> says that no slice of length 1 to 7
  (or to the end of the text) that starts at a position is a key of the reverse table.
  \<open>greedy_from lk D text pos ts\<close> says that the units \<open>ts\<close> spell the text from \<open>pos\<close>
  to its end in the one way the algorithm of the specification allows: an index stands where
  its entry is the longest key in the window; a raw character stands only where no key
  starts; a literal or a run of fewer than 255 characters ends only at a position where a key
  starts or at the end of the text; and no run is longer than 255.
\<close>

fun flushed :: "str \<Rightarrow> token list" where
  "flushed [] = []"
| "flushed [b] = [Literal b]"
| "flushed raw = [Run raw]"

definition no_match_at :: "(str \<rightharpoonup> str) \<Rightarrow> str \<Rightarrow> nat \<Rightarrow> bool" where
  "no_match_at lk text pos =
     list_all (\<lambda>k. lk (slice text pos (pos + k)) = None) [1..<Suc (min 7 (length text - pos))]"

fun is_entry :: "token \<Rightarrow> bool" where
  "is_entry (Entry i) = True"
| "is_entry (Literal b) = False"
| "is_entry (Run raw) = False"

fun greedy_from :: "(str \<rightharpoonup> str) \<Rightarrow> str list \<Rightarrow> str \<Rightarrow> nat \<Rightarrow> token list \<Rightarrow> bool" where
  "greedy_from lk D text pos [] = (pos = length text)"
| "greedy_from lk D text pos (Entry i # ts) =
     (1 \<le> length (D ! i) \<and> length (D ! i) \<le> min 7 (length text - pos)
      \<and> slice text pos (pos + length (D ! i)) = D ! i
      \<and> lk (D ! i) = Some [i]
      \<and> list_all (\<lambda>k. lk (slice text pos (pos + k)) = None)
           [Suc (length (D ! i))..<Suc (min 7 (length text - pos))]
      \<and> greedy_from lk D text (pos + length (D ! i)) ts)"
| "greedy_from lk D text pos (Literal b # ts) =
     (pos < length text \<and> text ! pos = b
      \<and> no_match_at lk text pos
      \<and> (ts = [] \<or> is_entry (hd ts))
      \<and> greedy_from lk D text (pos + 1) ts)"
| "greedy_from lk D text pos (Run raw # ts) =
     (2 \<le> length raw \<and> length raw \<le> 255 \<and> pos + length raw \<le> length text
      \<and> slice text pos (pos + length raw) = raw
      \<and> list_all (no_match_at lk text) [pos..<pos + length raw]
      \<and> (length raw = 255 \<or> ts = [] \<or> is_entry (hd ts))
      \<and> greedy_from lk D text (pos + length raw) ts)"

section \<open>Lemmas\<close>

lemma decompress_loop_decode_rest:
  "decompress_loop D c pos out =
     (case decode_rest D (drop pos c) of Inl e \<Rightarrow> Inl e | Inr r \<Rightarrow> Inr (out @ r))"
proof (induction D c pos out rule: decompress_loop.induct)
  case (1 D c pos out)
  show ?case
  proof (cases "pos < length c")
    case False
    then show ?thesis by (simp add: decompress_loop.simps[of D c pos])
  next
    case inb: True
    then have d0: "drop pos c = c ! pos # drop (pos + 1) c"
      by (simp add: Cons_nth_drop_Suc)
    show ?thesis
    proof (cases "c ! pos < 254")
      case True
      then show ?thesis
        using inb d0 "1.IH"(1)[OF inb refl refl True]
        by (simp add: decompress_loop.simps[of D c pos] split: sum.splits)
    next
      case esc: False
      show ?thesis
      proof (cases "pos + 1 < length c")
        case False
        then have "drop (pos + 1) c = []" by simp
        then show ?thesis using inb esc d0 False
          by (simp add: decompress_loop.simps[of D c pos])
      next
        case inb1: True
        then have d1: "drop (pos + 1) c = c ! (pos + 1) # drop (pos + 1 + 1) c"
          using Cons_nth_drop_Suc[of "pos + 1" c] by simp
        show ?thesis
        proof (cases "c ! pos = 254")
          case True
          then show ?thesis
            using inb esc inb1 d0 d1 "1.IH"(2)[OF inb refl refl esc inb1 refl refl True]
            by (simp add: decompress_loop.simps[of D c pos] split: sum.splits)
        next
          case run: False
          show ?thesis
          proof (cases "pos + 1 + 1 + c ! (pos + 1) + 1 > length c")
            case True
            then show ?thesis
              using inb esc inb1 d0 d1 run
              by (simp add: decompress_loop.simps[of D c pos])
          next
            case False
            have sl: "slice c (pos + 1 + 1) (pos + 1 + 1 + c ! (pos + 1) + 1)
                      = take (c ! (pos + 1) + 1) (drop (pos + 1 + 1) c)"
              by (simp add: slice_def take_drop add.commute add.left_commute)
            have dd: "drop (c ! (pos + 1) + 1) (drop (pos + 1 + 1) c)
                      = drop (pos + 1 + 1 + c ! (pos + 1) + 1) c"
              by (simp add: add.commute add.left_commute)
            from False have le: "\<not> c ! (pos + 1) + 1 > length (drop (pos + 1 + 1) c)"
              by simp
            show ?thesis
              apply (subst decompress_loop.simps)
              apply (subst d0)
              apply (subst d1)
              apply (subst decode_rest.simps)
              using inb esc inb1 run False le
                "1.IH"(3)[OF inb refl refl esc inb1 refl refl run refl False]
              apply (simp only: Let_def if_True if_False list.case sl dd)
              apply (simp split: sum.splits)
              done
          qed
        qed
      qed
    qed
  qed
qed

lemma decode_rest_append:
  "decode_rest D xs = Inr a \<Longrightarrow>
   decode_rest D (xs @ ys) = (case decode_rest D ys of Inl e \<Rightarrow> Inl e | Inr b \<Rightarrow> Inr (a @ b))"
proof (induction D xs arbitrary: a rule: decode_rest.induct)
  case (1 D)
  then show ?case by (simp split: sum.splits)
next
  case (2 D ch rest)
  show ?case
  proof (cases "ch < 254")
    case True
    with "2.prems" "2.IH"(1) show ?thesis
      by (auto split: if_splits sum.splits)
  next
    case esc: False
    with "2.prems" obtain next_byte rest' where r: "rest = next_byte # rest'"
      by (cases rest) auto
    show ?thesis
    proof (cases "ch = 254")
      case True
      with esc r "2.prems" "2.IH"(2)[OF esc r True] show ?thesis
        by (auto split: sum.splits)
    next
      case run: False
      with esc r "2.prems" have fits: "\<not> next_byte + 1 > length rest'"
        by (auto split: if_splits)
      with esc r run "2.prems" "2.IH"(3)[OF esc r run fits] show ?thesis
        by (auto split: sum.splits)
    qed
  qed
qed

lemma decodes_to_append:
  "decodes_to D c1 s1 \<Longrightarrow> decodes_to D c2 s2 \<Longrightarrow> decodes_to D (c1 @ c2) (s1 @ s2)"
  by (auto simp: decodes_to_def decode_rest_append split: sum.splits)

lemma decodes_to_Nil: "decodes_to D [] []"
  by (simp add: decodes_to_def)

lemma decodes_to_entry: "i < 254 \<Longrightarrow> i < length D \<Longrightarrow> decodes_to D [i] (D ! i)"
  by (simp add: decodes_to_def)

lemma decodes_to_single: "decodes_to D [254, b] [b]"
  by (simp add: decodes_to_def)

lemma decodes_to_run: "length raw = Suc n \<Longrightarrow> decodes_to D (255 # n # raw) raw"
  by (simp add: decodes_to_def)

lemma chr_small: "i < 1114112 \<Longrightarrow> chr i = Inr [i]"
  by (simp add: chr_def)

lemma flush_verbatim_Nil: "flush_verbatim [] output = Inr ([], output)"
  by (simp add: flush_verbatim_def)

lemma flush_verbatim_single: "flush_verbatim [b] output = Inr ([], output @ [[254, b]])"
  by (simp add: flush_verbatim_def chr_def)

lemma flush_verbatim_run:
  "2 \<le> length buffer \<Longrightarrow> length buffer \<le> 1114112 \<Longrightarrow>
   flush_verbatim buffer output = Inr ([], output @ [[255, length buffer - 1], buffer])"
  by (auto simp: flush_verbatim_def chr_def)

lemma flush_verbatim_decodes:
  assumes "length buffer \<le> 255" and "decodes_to D (concat output) s"
  shows "\<exists>output'. flush_verbatim buffer output = Inr ([], output')
           \<and> decodes_to D (concat output') (s @ buffer)"
proof -
  consider "buffer = []" | b where "buffer = [b]" | "2 \<le> length buffer"
    by (cases buffer; cases "tl buffer") auto
  then show ?thesis
  proof cases
    case 1
    with assms show ?thesis by (simp add: flush_verbatim_Nil)
  next
    case 2
    with assms decodes_to_append[OF assms(2) decodes_to_single[of D b]] show ?thesis
      by (simp add: flush_verbatim_single)
  next
    case 3
    then have "length buffer = Suc (length buffer - 1)" by simp
    from decodes_to_append[OF assms(2) decodes_to_run[OF this, of D]] 3 assms(1)
    show ?thesis by (simp add: flush_verbatim_run)
  qed
qed


lemma find_match_Some:
  "find_match lk text pos n = (Some code, l) \<Longrightarrow>
     lk (slice text pos (pos + l)) = Some code \<and> 1 \<le> l \<and> l \<le> n
     \<and> (\<forall>k. l < k \<and> k \<le> n \<longrightarrow> lk (slice text pos (pos + k)) = None)"
proof (induction n)
  case 0
  then show ?case by simp
next
  case (Suc n)
  show ?case
  proof (cases "lk (slice text pos (pos + Suc n))")
    case None
    with Suc.prems have "find_match lk text pos n = (Some code, l)"
      by (simp add: Let_def)
    from Suc.IH[OF this] None show ?thesis
      by (auto simp: le_Suc_eq)
  next
    case (Some c)
    with Suc.prems show ?thesis by (auto simp: Let_def)
  qed
qed

lemma find_match_None:
  "find_match lk text pos n = (None, l) \<Longrightarrow>
     l = 0 \<and> (\<forall>k. 1 \<le> k \<and> k \<le> n \<longrightarrow> lk (slice text pos (pos + k)) = None)"
proof (induction n)
  case 0
  then show ?case by simp
next
  case (Suc n)
  show ?case
  proof (cases "lk (slice text pos (pos + Suc n))")
    case None
    with Suc.prems have "find_match lk text pos n = (None, l)"
      by (simp add: Let_def)
    from Suc.IH[OF this] None show ?thesis
      by (auto simp: le_Suc_eq)
  next
    case (Some c)
    with Suc.prems show ?thesis by (auto simp: Let_def)
  qed
qed

lemma take_add_slice: "take (pos + l) text = take pos text @ slice text pos (pos + l)"
proof -
  have "take (pos + l) text = take pos (take (pos + l) text) @ drop pos (take (pos + l) text)"
    by (simp only: append_take_drop_id)
  moreover have "take pos (take (pos + l) text) = take pos text"
    by simp
  ultimately show ?thesis
    by (simp add: slice_def)
qed

lemma compress_loop_decodes:
  "lookup_ok D lk \<Longrightarrow> pos \<le> length text \<Longrightarrow> length verbatim < 255 \<Longrightarrow>
         decodes_to D (concat output) s \<Longrightarrow> s @ verbatim = take pos text \<Longrightarrow>
         \<exists>v' o' s'. compress_loop lk text pos verbatim output = Inr (v', o')
            \<and> length v' < 255 \<and> decodes_to D (concat o') s' \<and> s' @ v' = text"
proof (induction lk "text" pos verbatim "output" arbitrary: s rule: compress_loop.induct)
  case (1 lk t pos verbatim out)
  note ok = "1.prems"(1) and pos_le = "1.prems"(2) and vlen = "1.prems"(3)
    and dec = "1.prems"(4) and sv = "1.prems"(5)
  show ?case
  proof (cases "pos < length t")
    case False
    with "1.prems" show ?thesis
      by (subst compress_loop.simps) auto
  next
    case inb: True
    define found where "found = find_match lk t pos (min 7 (length t - pos))"
    show ?thesis
    proof (cases "truthy (fst found)")
      case True
      then obtain code where fc: "fst found = Some code"
        by (cases "fst found") auto
      then have fm: "find_match lk t pos (min 7 (length t - pos)) = (Some code, snd found)"
        by (simp add: found_def prod_eq_iff)
      from find_match_Some[OF fm]
      have lk: "lk (slice t pos (pos + snd found)) = Some code"
        and len: "1 \<le> snd found" "snd found \<le> length t - pos"
        by (auto simp: found_def)
      from ok[unfolded lookup_ok_def, rule_format, OF lk]
      obtain i where i: "code = [i]" "i < 254" "i < length D"
          "D ! i = slice t pos (pos + snd found)"
        by blast
      from flush_verbatim_decodes[OF _ dec, of verbatim] vlen
      obtain o1 where fl: "flush_verbatim verbatim out = Inr ([], o1)"
        and d1: "decodes_to D (concat o1) (s @ verbatim)" by auto
      have d2: "decodes_to D (concat (o1 @ [the (fst found)])) (take (pos + snd found) t)"
        using decodes_to_append[OF d1 decodes_to_entry[OF i(2,3)]] i(1,4) fc sv
        by (simp add: take_add_slice)
      have "\<exists>v' o' s'. compress_loop lk t (pos + snd found) [] (o1 @ [the (fst found)])
               = Inr (v', o') \<and> length v' < 255 \<and> decodes_to D (concat o') s' \<and> s' @ v' = t"
        using "1.IH"(1)[OF inb found_def refl refl True fl refl ok _ _ d2] len inb pos_le
        by simp
      then show ?thesis
        using inb True fl
        by (subst compress_loop.simps) (simp add: Let_def found_def[symmetric])
    next
      case nomatch: False
      define v1 where "v1 = verbatim @ [t ! pos]"
      have tk: "s @ v1 = take (pos + 1) t"
        using sv inb by (simp add: v1_def take_Suc_conv_app_nth)
      show ?thesis
      proof (cases "length v1 = 255")
        case True
        from flush_verbatim_decodes[OF _ dec, of v1] True
        obtain o1 where fl: "flush_verbatim v1 out = Inr ([], o1)"
          and d1: "decodes_to D (concat o1) (s @ v1)" by auto
        have "\<exists>v' o' s'. compress_loop lk t (pos + 1) [] o1
               = Inr (v', o') \<and> length v' < 255 \<and> decodes_to D (concat o') s' \<and> s' @ v' = t"
          using "1.IH"(2)[OF inb found_def refl refl nomatch v1_def True fl refl ok _ _ d1] tk inb
          by simp
        then show ?thesis
          using inb nomatch True fl
          by (subst compress_loop.simps)
             (simp add: Let_def found_def[symmetric] v1_def[symmetric])
      next
        case False
        have "\<exists>v' o' s'. compress_loop lk t (pos + 1) v1 out
               = Inr (v', o') \<and> length v' < 255 \<and> decodes_to D (concat o') s' \<and> s' @ v' = t"
          using "1.IH"(3)[OF inb found_def refl refl nomatch v1_def False ok _ _ dec]
            tk inb vlen False
          by (simp add: v1_def)
        then show ?thesis
          using inb nomatch False
          by (subst compress_loop.simps)
             (simp add: Let_def found_def[symmetric] v1_def[symmetric])
      qed
    qed
  qed
qed


lemma length_slice: "length (slice xs i j) = min j (length xs) - i"
  by (simp add: slice_def min.commute)

lemma encapsulate_chunk_decodes:
  assumes "chunk \<noteq> []" and "length chunk \<le> 255"
  shows "\<exists>ps. (if length chunk = 1 then
            (case chr 254 of Inl e \<Rightarrow> Inl e | Inr c254 \<Rightarrow> Inr [c254 @ chunk])
          else
            (case chr 255 of Inl e \<Rightarrow> Inl e | Inr c255 \<Rightarrow>
              (case chr (length chunk - 1) of Inl e \<Rightarrow> Inl e
               | Inr clen \<Rightarrow> Inr ([c255 @ clen] @ [chunk])))) = Inr ps
         \<and> decodes_to D (concat ps) chunk
         \<and> length (concat ps) \<le> length chunk + 2
         \<and> (length chunk = 1 \<longrightarrow> length (concat ps) = 2)"
proof (cases "length chunk = 1")
  case True
  then obtain b where "chunk = [b]"
    by (cases chunk) auto
  then show ?thesis
    by (simp add: chr_def decodes_to_single)
next
  case False
  with assms have "length chunk = Suc (length chunk - 1)"
    by (cases chunk) auto
  from decodes_to_run[OF this, of D] False assms show ?thesis
    by (simp add: chr_def)
qed

lemma encapsulate_loop_decodes:
  "decodes_to D (concat output) (take i text) \<Longrightarrow>
   \<exists>o'. encapsulate_loop text i output = Inr o' \<and> decodes_to D (concat o') text"
proof (induction "text" i "output" rule: encapsulate_loop.induct)
  case (1 t i out)
  show ?case
  proof (cases "i < length t")
    case False
    with "1.prems" show ?thesis
      by (subst encapsulate_loop.simps) simp
  next
    case inb: True
    define chunk where "chunk = slice t i (i + 255)"
    have ne: "chunk \<noteq> []" and le: "length chunk \<le> 255"
      using inb by (auto simp: chunk_def slice_def)
    have tk: "take (i + 255) t = take i t @ chunk"
      by (simp add: chunk_def take_add_slice)
    from encapsulate_chunk_decodes[OF ne le, of D] obtain ps where
      ps: "(if length chunk = 1 then
            (case chr 254 of Inl e \<Rightarrow> Inl e | Inr c254 \<Rightarrow> Inr [c254 @ chunk])
          else
            (case chr 255 of Inl e \<Rightarrow> Inl e | Inr c255 \<Rightarrow>
              (case chr (length chunk - 1) of Inl e \<Rightarrow> Inl e
               | Inr clen \<Rightarrow> Inr ([c255 @ clen] @ [chunk])))) = Inr ps"
      and dps: "decodes_to D (concat ps) chunk"
      by blast
    have d': "decodes_to D (concat (out @ ps)) (take (i + 255) t)"
      using decodes_to_append[OF "1.prems" dps] tk by simp
    show ?thesis
    proof (cases "length chunk = 1")
      case True
      with ps obtain c254 where c: "chr 254 = Inr c254" and pe: "ps = [c254 @ chunk]"
        by (auto split: sum.splits)
      from "1.IH"(1)[OF inb chunk_def True c] d' pe
      have "\<exists>o'. encapsulate_loop t (i + 255) (out @ [c254 @ chunk]) = Inr o'
              \<and> decodes_to D (concat o') t"
        by simp
      then show ?thesis
        using inb True c
        by (subst encapsulate_loop.simps) (simp add: Let_def chunk_def[symmetric])
    next
      case False
      with ps obtain c255 clen where c: "chr 255 = Inr c255" "chr (length chunk - 1) = Inr clen"
        and pe: "ps = [c255 @ clen] @ [chunk]"
        by (auto split: sum.splits)
      from "1.IH"(2)[OF inb chunk_def False c] d' pe
      have "\<exists>o'. encapsulate_loop t (i + 255) (out @ [c255 @ clen] @ [chunk]) = Inr o'
              \<and> decodes_to D (concat o') t"
        by simp
      then show ?thesis
        using inb False c
        by (subst encapsulate_loop.simps) (simp add: Let_def chunk_def[symmetric])
    qed
  qed
qed

lemma encapsulate_decodes: "\<exists>r. encapsulate text = Inr r \<and> decodes_to D r text"
proof (cases "text = []")
  case True
  then show ?thesis by (simp add: encapsulate_def decodes_to_Nil)
next
  case False
  from encapsulate_loop_decodes[of D "[]" 0 "text"] obtain o' where
    "encapsulate_loop text 0 [] = Inr o'" "decodes_to D (concat o') text"
    by (auto simp: decodes_to_Nil)
  with False show ?thesis by (simp add: encapsulate_def)
qed

lemma compress_body_decodes:
  assumes "lookup_ok (DECODE self) (self_lookup self)"
  shows "\<exists>r. compress_body self text = Inr r \<and> decodes_to (DECODE self) r text"
proof -
  from compress_loop_decodes[OF assms, of 0 "text" "[]" "[]" "[]"]
  obtain v' o' s' where cl: "compress_loop (self_lookup self) text 0 [] [] = Inr (v', o')"
    and v: "length v' < 255" and d: "decodes_to (DECODE self) (concat o') s'"
    and sv: "s' @ v' = text"
    by (auto simp: decodes_to_Nil)
  from flush_verbatim_decodes[OF _ d, of v'] v sv
  obtain o'' where fl: "flush_verbatim v' o' = Inr ([], o'')"
    and d'': "decodes_to (DECODE self) (concat o'') text"
    by auto
  show ?thesis
    using cl fl d'' encapsulate_decodes[of "text" "DECODE self"]
    by (auto simp: compress_body_def Let_def)
qed

lemma decompress_decodes:
  "decodes_to (DECODE self) r text \<Longrightarrow> decompress self r = Inr text"
  by (auto simp: decompress_def decodes_to_def decompress_loop_decode_rest split: sum.splits)


lemma Smaz_create_lookup_loop_other:
  "Smaz_create_lookup_loop (enumerate n xs) m = Inr lk \<Longrightarrow> s \<notin> set xs \<Longrightarrow> lk s = m s"
proof (induction xs arbitrary: n m)
  case Nil
  then show ?case by simp
next
  case (Cons x xs)
  then show ?case
    by (auto simp: chr_def split: if_splits)
qed

lemma Smaz_create_lookup_loop_last:
  "Smaz_create_lookup_loop (enumerate n xs) m = Inr lk \<Longrightarrow> j < length xs \<Longrightarrow>
   (\<forall>k. j < k \<and> k < length xs \<longrightarrow> xs ! k \<noteq> xs ! j) \<Longrightarrow> lk (xs ! j) = Some [n + j]"
proof (induction xs arbitrary: n m j)
  case Nil
  then show ?case by simp
next
  case (Cons x xs)
  from Cons.prems(1) have c: "chr n = Inr [n]"
    and rest: "Smaz_create_lookup_loop (enumerate (Suc n) xs) (m(x \<mapsto> [n])) = Inr lk"
    by (auto simp: chr_def split: if_splits)
  show ?case
  proof (cases j)
    case 0
    with Cons.prems(3) have "x \<notin> set xs"
      by (auto simp: in_set_conv_nth)
    from Smaz_create_lookup_loop_other[OF rest this] 0 show ?thesis
      by simp
  next
    case (Suc j')
    with Cons.prems(2,3) have "j' < length xs"
      and "\<forall>k. j' < k \<and> k < length xs \<longrightarrow> xs ! k \<noteq> xs ! j'"
      by auto
    from Cons.IH[OF rest this] Suc show ?thesis
      by simp
  qed
qed

lemma Smaz_create_lookup_loop_total:
  "n + length xs \<le> 1114112 \<Longrightarrow> \<exists>lk. Smaz_create_lookup_loop (enumerate n xs) m = Inr lk"
  by (induction xs arbitrary: n m) (auto simp: chr_def)

lemma last_occurrence:
  "s \<in> set xs \<Longrightarrow> \<exists>j<length xs. xs ! j = s \<and> (\<forall>k. j < k \<and> k < length xs \<longrightarrow> xs ! k \<noteq> s)"
proof (induction xs rule: rev_induct)
  case Nil
  then show ?case by simp
next
  case (snoc x xs)
  show ?case
  proof (cases "x = s")
    case True
    then show ?thesis
      by (intro exI[of _ "length xs"]) auto
  next
    case False
    with snoc obtain j where j: "j < length xs" "xs ! j = s"
      "\<forall>k. j < k \<and> k < length xs \<longrightarrow> xs ! k \<noteq> s"
      by auto
    show ?thesis
    proof (intro exI[of _ j] conjI allI impI)
      show "j < length (xs @ [x])" using j(1) by simp
      show "(xs @ [x]) ! j = s" using j(1,2) by (simp add: nth_append)
      fix k assume "j < k \<and> k < length (xs @ [x])"
      then show "(xs @ [x]) ! k \<noteq> s"
        using j(3) False by (cases "k < length xs") (auto simp: nth_append)
    qed
  qed
qed

lemma SmazMultilang_loop_cutoff:
  "SmazMultilang_create_lookup_loop (enumerate n xs) m
     = Smaz_create_lookup_loop (enumerate n (take (254 - n) xs)) m"
proof (induction xs arbitrary: n m)
  case Nil
  then show ?case by simp
next
  case (Cons x xs)
  show ?case
  proof (cases "n \<ge> 254")
    case True
    then show ?thesis by simp
  next
    case False
    then have "254 - n = Suc (254 - Suc n)" by simp
    with False Cons.IH[of "Suc n"] show ?thesis
      by (simp add: chr_def fun_upd_def)
  qed
qed

lemma SmazMultilang_create_lookup_cutoff:
  "SmazMultilang_create_lookup D = Smaz_create_lookup (take 254 D)"
  using SmazMultilang_loop_cutoff[of 0 D Map.empty]
  by (simp add: SmazMultilang_create_lookup_def Smaz_create_lookup_def)

lemma Smaz_create_lookup_Some:
  assumes "Smaz_create_lookup D = Inr lk" and "lk s = Some code"
  shows "\<exists>j<length D. code = [j] \<and> D ! j = s \<and> (\<forall>k. j < k \<and> k < length D \<longrightarrow> D ! k \<noteq> s)"
proof -
  from assms(1) have l: "Smaz_create_lookup_loop (enumerate 0 D) Map.empty = Inr lk"
    by (simp add: Smaz_create_lookup_def)
  from Smaz_create_lookup_loop_other[OF l, of s] assms(2) have "s \<in> set D"
    by auto
  from last_occurrence[OF this] obtain j where j: "j < length D" "D ! j = s"
    "\<forall>k. j < k \<and> k < length D \<longrightarrow> D ! k \<noteq> s"
    by blast
  from Smaz_create_lookup_loop_last[OF l j(1)] j assms(2) show ?thesis
    by auto
qed

lemma Smaz_lookup_ok:
  "Smaz_create_lookup D = Inr lk \<Longrightarrow> length D \<le> 254 \<Longrightarrow> lookup_ok D lk"
  unfolding lookup_ok_def
  by (auto dest!: Smaz_create_lookup_Some)

lemma SmazMultilang_lookup_ok:
  "SmazMultilang_create_lookup D = Inr lk \<Longrightarrow> lookup_ok D lk"
  unfolding lookup_ok_def SmazMultilang_create_lookup_cutoff
  by (auto dest!: Smaz_create_lookup_Some)

lemma SmazMultilang_create_lookup_total: "\<exists>lk. SmazMultilang_create_lookup D = Inr lk"
  unfolding SmazMultilang_create_lookup_cutoff Smaz_create_lookup_def
  by (rule Smaz_create_lookup_loop_total) simp

lemma Smaz_create_lookup_total:
  "length D \<le> 1114112 \<Longrightarrow> \<exists>lk. Smaz_create_lookup D = Inr lk"
  unfolding Smaz_create_lookup_def
  by (rule Smaz_create_lookup_loop_total) simp


lemma check_all_ascii_is_ascii:
  "check_all_ascii text = (if is_ascii text then Inr () else Inl (ValueError Solo_procesa_texto_ASCII))"
  by (induction "text") auto

lemma Smaz_init_fields:
  "Smaz_init D = Inr self \<Longrightarrow> DECODE self = D \<and> Smaz_create_lookup D = Inr (self_lookup self)"
  by (auto simp: Smaz_init_def split: sum.splits)

lemma SmazMultilang_init_fields:
  "SmazMultilang_init D = Inr self \<Longrightarrow>
     DECODE self = D \<and> SmazMultilang_create_lookup D = Inr (self_lookup self)"
  by (auto simp: SmazMultilang_init_def split: sum.splits)

lemma Smaz_init_lookup_ok:
  "Smaz_init D = Inr self \<Longrightarrow> length D \<le> 254 \<Longrightarrow> lookup_ok (DECODE self) (self_lookup self)"
  using Smaz_init_fields[of D self] Smaz_lookup_ok[of D "self_lookup self"] by simp

lemma SmazMultilang_init_lookup_ok:
  "SmazMultilang_init D = Inr self \<Longrightarrow> lookup_ok (DECODE self) (self_lookup self)"
  using SmazMultilang_init_fields[of D self] SmazMultilang_lookup_ok[of D "self_lookup self"]
  by simp

lemma find_match_numeral:
  "find_match lk text pos (numeral k) =
     (case lk (slice text pos (pos + numeral k)) of
        Some code \<Rightarrow> (Some code, numeral k)
      | None \<Rightarrow> find_match lk text pos (pred_numeral k))"
  unfolding numeral_eq_Suc by (simp add: Let_def)



lemma ceil255_step: "255 < (m::nat) \<Longrightarrow> (m + 254) div 255 = Suc ((m - 255 + 254) div 255)"
proof -
  assume "255 < m"
  then have "m + 254 = (m - 255 + 254) + 255" by simp
  then show ?thesis by (metis div_add_self2 zero_neq_numeral add.commute plus_1_eq_Suc)
qed

lemma ceil255_small: "0 < (m::nat) \<Longrightarrow> m \<le> 255 \<Longrightarrow> (m + 254) div 255 = 1"
  by (rule div_nat_eqI) simp_all

lemma ceil255_div_mod: "((n::nat) + 254) div 255 = n div 255 + (if n mod 255 > 0 then 1 else 0)"
proof -
  define q where "q = n div 255"
  define r where "r = n mod 255"
  have n: "n = r + q * 255" and r: "r < 255"
    by (simp_all add: q_def r_def)
  have "(n + 254) div 255 = (r + 254 + q * 255) div 255"
    by (simp add: n)
  also have "\<dots> = q + (r + 254) div 255"
    by simp
  also have "(r + 254) div 255 = (if r > 0 then 1 else 0)"
    using r by (auto intro: div_nat_eqI)
  finally show ?thesis by (simp add: q_def r_def)
qed

lemma worst_size_ceil: "2 \<le> n \<Longrightarrow> worst_size n = n + 2 * ((n + 254) div 255)"
  by (simp add: worst_size_def Let_def ceil255_div_mod)

lemma encapsulate_loop_length:
  "encapsulate_loop text i output = Inr o' \<Longrightarrow>
   length (concat o') \<le> length (concat output) + (length text - i)
                          + 2 * ((length text - i + 254) div 255)"
proof (induction "text" i "output" rule: encapsulate_loop.induct)
  case (1 t i out)
  show ?case
  proof (cases "i < length t")
    case False
    with "1.prems" show ?thesis
      by (simp add: encapsulate_loop.simps[of t i])
  next
    case inb: True
    define chunk where "chunk = slice t i (i + 255)"
    define m where "m = length t - i"
    have m: "0 < m" using inb by (simp add: m_def)
    have lc: "length chunk = min 255 m"
      by (auto simp: chunk_def length_slice m_def)
    have ne: "chunk \<noteq> []" and le: "length chunk \<le> 255"
      using lc m by auto
    have rest: "length t - (i + 255) = m - 255"
      by (simp add: m_def)
    have cost: "length chunk + 2 + (m - 255) + 2 * ((m - 255 + 254) div 255)
                  \<le> m + 2 * ((m + 254) div 255)"
    proof (cases "m \<le> 255")
      case True
      with m lc show ?thesis by (simp add: ceil255_small)
    next
      case False
      with lc show ?thesis by (simp add: ceil255_step)
    qed
    from encapsulate_chunk_decodes[OF ne le, of "[]"] obtain ps where
      ps: "(if length chunk = 1 then
            (case chr 254 of Inl e \<Rightarrow> Inl e | Inr c254 \<Rightarrow> Inr [c254 @ chunk])
          else
            (case chr 255 of Inl e \<Rightarrow> Inl e | Inr c255 \<Rightarrow>
              (case chr (length chunk - 1) of Inl e \<Rightarrow> Inl e
               | Inr clen \<Rightarrow> Inr ([c255 @ clen] @ [chunk])))) = Inr ps"
      and lps: "length (concat ps) \<le> length chunk + 2"
      by blast
    have step: "encapsulate_loop t (i + 255) (out @ ps) = Inr o'"
      using "1.prems" inb ps
      by (subst (asm) encapsulate_loop.simps)
         (auto simp: Let_def chunk_def[symmetric] split: if_splits sum.splits)
    have "length (concat o') \<le> length (concat (out @ ps)) + (m - 255)
            + 2 * ((m - 255 + 254) div 255)"
    proof (cases "length chunk = 1")
      case True
      with ps obtain c254 where c: "chr 254 = Inr c254" and pe: "ps = [c254 @ chunk]"
        by (auto split: sum.splits)
      from "1.IH"(1)[OF inb chunk_def True c] step pe rest show ?thesis
        by simp
    next
      case False
      with ps obtain c255 clen where c: "chr 255 = Inr c255" "chr (length chunk - 1) = Inr clen"
        and pe: "ps = [c255 @ clen] @ [chunk]"
        by (auto split: sum.splits)
      from "1.IH"(2)[OF inb chunk_def False c] step pe rest show ?thesis
        by simp
    qed
    with lps cost show ?thesis
      by (simp add: m_def[symmetric])
  qed
qed

lemma encapsulate_length:
  assumes "encapsulate text = Inr r"
  shows "length r \<le> worst_size (length text)"
proof -
  consider "text = []" | b where "text = [b]" | "2 \<le> length text"
    by (cases "text"; cases "tl text") auto
  then show ?thesis
  proof cases
    case 1
    with assms show ?thesis by (simp add: encapsulate_def)
  next
    case 2
    with assms show ?thesis
      by (auto simp: encapsulate_def encapsulate_loop.simps slice_def chr_def worst_size_def)
  next
    case 3
    then have ne: "text \<noteq> []" by auto
    with assms obtain o' where o': "encapsulate_loop text 0 [] = Inr o'" and r: "r = concat o'"
      by (auto simp: encapsulate_def split: sum.splits)
    from encapsulate_loop_length[OF o'] r 3 show ?thesis
      by (simp add: worst_size_ceil)
  qed
qed

lemma compress_body_length:
  "compress_body self text = Inr r \<Longrightarrow> length r \<le> worst_size (length text)"
  by (auto simp: compress_body_def Let_def encapsulate_length split: sum.splits if_splits)


lemma flush_verbatim_total:
  "length buffer \<le> 255 \<Longrightarrow> \<exists>o1. flush_verbatim buffer output = Inr ([], o1)"
  by (auto simp: flush_verbatim_def chr_def)

lemma compress_loop_rule:
  assumes inv: "I pos verbatim output"
    and bound: "\<And>pos verbatim output. I pos verbatim output \<Longrightarrow> length verbatim < 255"
    and match: "\<And>pos verbatim output code l o1.
        I pos verbatim output \<Longrightarrow> pos < length text \<Longrightarrow>
        find_match lk text pos (min 7 (length text - pos)) = (Some code, l) \<Longrightarrow> code \<noteq> [] \<Longrightarrow>
        flush_verbatim verbatim output = Inr ([], o1) \<Longrightarrow> I (pos + l) [] (o1 @ [code])"
    and full: "\<And>pos verbatim output o1.
        I pos verbatim output \<Longrightarrow> pos < length text \<Longrightarrow>
        \<not> truthy (fst (find_match lk text pos (min 7 (length text - pos)))) \<Longrightarrow>
        length (verbatim @ [text ! pos]) = 255 \<Longrightarrow>
        flush_verbatim (verbatim @ [text ! pos]) output = Inr ([], o1) \<Longrightarrow> I (pos + 1) [] o1"
    and literal: "\<And>pos verbatim output.
        I pos verbatim output \<Longrightarrow> pos < length text \<Longrightarrow>
        \<not> truthy (fst (find_match lk text pos (min 7 (length text - pos)))) \<Longrightarrow>
        length (verbatim @ [text ! pos]) \<noteq> 255 \<Longrightarrow> I (pos + 1) (verbatim @ [text ! pos]) output"
  shows "\<exists>v' o' pos'. compress_loop lk text pos verbatim output = Inr (v', o')
           \<and> I pos' v' o' \<and> \<not> pos' < length text"
  using bound match full literal inv
proof (induction lk "text" pos verbatim "output" rule: compress_loop.induct)
  case (1 lk t pos verbatim out)
  note bound = "1.prems"(1) and match = "1.prems"(2) and full = "1.prems"(3)
    and literal = "1.prems"(4) and inv = "1.prems"(5)
  show ?case
  proof (cases "pos < length t")
    case False
    with inv show ?thesis
      by (subst compress_loop.simps) auto
  next
    case inb: True
    define found where "found = find_match lk t pos (min 7 (length t - pos))"
    show ?thesis
    proof (cases "truthy (fst found)")
      case True
      then obtain code where fc: "fst found = Some code" and ne: "code \<noteq> []"
        by (cases "fst found") auto
      then have fm: "find_match lk t pos (min 7 (length t - pos)) = (Some code, snd found)"
        by (simp add: found_def prod_eq_iff)
      from flush_verbatim_total[of verbatim out] bound[OF inv]
      obtain o1 where fl: "flush_verbatim verbatim out = Inr ([], o1)"
        by auto
      have "I (pos + snd found) [] (o1 @ [the (fst found)])"
        using match[OF inv inb fm ne fl] fc by simp
      from "1.IH"(1)[OF inb found_def refl refl True fl refl bound match full literal this]
      show ?thesis
        using inb True fl
        by (subst compress_loop.simps) (simp add: Let_def found_def[symmetric])
    next
      case nomatch: False
      define v1 where "v1 = verbatim @ [t ! pos]"
      show ?thesis
      proof (cases "length v1 = 255")
        case True
        from flush_verbatim_total[of v1 out] True
        obtain o1 where fl: "flush_verbatim v1 out = Inr ([], o1)"
          by auto
        have "I (pos + 1) [] o1"
          using full[OF inv inb nomatch[unfolded found_def] True[unfolded v1_def] fl[unfolded v1_def]] .
        from "1.IH"(2)[OF inb found_def refl refl nomatch v1_def True fl refl
            bound match full literal this]
        show ?thesis
          using inb nomatch True fl
          by (subst compress_loop.simps)
             (simp add: Let_def found_def[symmetric] v1_def[symmetric])
      next
        case False
        have "I (pos + 1) v1 out"
          using literal[OF inv inb nomatch[unfolded found_def] False[unfolded v1_def]]
          by (simp add: v1_def)
        from "1.IH"(3)[OF inb found_def refl refl nomatch v1_def False
            bound match full literal this]
        show ?thesis
          using inb nomatch False
          by (subst compress_loop.simps)
             (simp add: Let_def found_def[symmetric] v1_def[symmetric])
      qed
    qed
  qed
qed

lemma compress_loop_total:
  assumes "length verbatim < 255"
  shows "\<exists>v' o'. compress_loop lk text pos verbatim output = Inr (v', o') \<and> length v' < 255"
  using compress_loop_rule[of "\<lambda>pos v out. length v < 255" pos verbatim "output" "text" lk] assms
  by auto

lemma compress_body_total: "\<exists>r. compress_body self text = Inr r"
proof -
  from compress_loop_total[of "[]" "self_lookup self" "text" 0 "[]"]
  obtain v' o' where cl: "compress_loop (self_lookup self) text 0 [] [] = Inr (v', o')"
    and v: "length v' < 255"
    by auto
  from flush_verbatim_total[of v' o'] v obtain o'' where "flush_verbatim v' o' = Inr ([], o'')"
    by auto
  with cl encapsulate_decodes[of "text" "[]"] show ?thesis
    by (auto simp: compress_body_def Let_def)
qed

lemma decompress_decode_rest:
  "decompress self c =
     (case decode_rest (DECODE self) c of
        Inl e \<Rightarrow> Inl (ValueError (Error_de_descompresion e))
      | Inr r \<Rightarrow> Inr (concat r))"
  by (cases "c = []") (auto simp: decompress_def decompress_loop_decode_rest split: sum.splits)

lemma decompress_after_prefix:
  assumes "decompress self pre = Inr s" and "decode_rest (DECODE self) bad = Inl e"
  shows "decompress self (pre @ bad) = Inl (ValueError (Error_de_descompresion e))"
proof -
  from assms(1) obtain r where "decode_rest (DECODE self) pre = Inr r"
    by (auto simp: decompress_decode_rest split: sum.splits)
  from decode_rest_append[OF this, of bad] assms(2) show ?thesis
    by (simp add: decompress_decode_rest)
qed

lemma is_ascii_iff: "is_ascii text \<longleftrightarrow> (\<forall>ch\<in>set text. ch < 128)"
  by (induction "text") auto

lemma tokens_of_Nil: "tokens_of D []"
  unfolding tokens_of_def by (rule exI[of _ "[]"]) simp

lemma tokens_of_snoc:
  assumes "tokens_of D pieces" and "token_ok D t" and "concat ps = serialize t"
  shows "tokens_of D (pieces @ ps)"
proof -
  from assms(1) obtain ts where "concat pieces = concat (map serialize ts)"
    and "list_all (token_ok D) ts"
    unfolding tokens_of_def by blast
  with assms(2,3) show ?thesis
    unfolding tokens_of_def by (intro exI[of _ "ts @ [t]"]) simp
qed

lemma flush_verbatim_tokens:
  assumes "flush_verbatim buffer output = Inr (b', o1)" and "length buffer \<le> 255"
    and "tokens_of D output"
  shows "b' = [] \<and> tokens_of D o1"
proof -
  consider "buffer = []" | b where "buffer = [b]" | "2 \<le> length buffer"
    by (cases buffer; cases "tl buffer") auto
  then show ?thesis
  proof cases
    case 1
    with assms show ?thesis by (simp add: flush_verbatim_Nil)
  next
    case 2
    with assms(1) have "b' = []" "o1 = output @ [[254, b]]"
      by (simp_all add: flush_verbatim_single)
    with tokens_of_snoc[OF assms(3), of "Literal b" "[[254, b]]"] show ?thesis
      by simp
  next
    case 3
    with assms(1,2) have "b' = []" "o1 = output @ [[255, length buffer - 1], buffer]"
      by (simp_all add: flush_verbatim_run)
    with tokens_of_snoc[OF assms(3), of "Run buffer" "[[255, length buffer - 1], buffer]"]
      3 assms(2)
    show ?thesis
      by simp
  qed
qed

lemma compress_loop_tokens:
  assumes ok: "lookup_ok D lk"
  shows "\<exists>v' o'. compress_loop lk text 0 [] [] = Inr (v', o') \<and> length v' < 255 \<and> tokens_of D o'"
proof -
  define I where "I = (\<lambda>(pos::nat) (v::str) out. pos \<le> length text \<and> length v < 255 \<and> tokens_of D out)"
  have "\<exists>v' o' pos'. compress_loop lk text 0 [] [] = Inr (v', o') \<and> I pos' v' o'
          \<and> \<not> pos' < length text"
  proof (rule compress_loop_rule[of I])
    show "I 0 [] []" by (simp add: I_def tokens_of_Nil)
  next
    fix pos verbatim out
    assume "I pos verbatim out"
    then show "length verbatim < 255" by (simp add: I_def)
  next
    fix pos verbatim out code l o1
    assume inv: "I pos verbatim out" and inb: "pos < length text"
      and fm: "find_match lk text pos (min 7 (length text - pos)) = (Some code, l)"
      and fl: "flush_verbatim verbatim out = Inr ([], o1)"
    from find_match_Some[OF fm]
    have lk: "lk (slice text pos (pos + l)) = Some code"
      and len: "1 \<le> l" "l \<le> 7" "l \<le> length text - pos"
      by auto
    from ok[unfolded lookup_ok_def, rule_format, OF lk]
    obtain i where i: "code = [i]" "i < 254" "i < length D" "D ! i = slice text pos (pos + l)"
      by blast
    have "length (D ! i) = l"
      using i(4) len(3) inb by (simp add: length_slice)
    with i len have tok: "token_ok D (Entry i)"
      by simp
    from flush_verbatim_tokens[OF fl, of D] inv have "tokens_of D o1"
      by (simp add: I_def)
    from tokens_of_snoc[OF this tok, of "[code]"] i(1) len(3) inb
    show "I (pos + l) [] (o1 @ [code])"
      by (simp add: I_def)
  next
    fix pos verbatim out o1
    assume inv: "I pos verbatim out" and inb: "pos < length text"
      and full: "length (verbatim @ [text ! pos]) = 255"
      and fl: "flush_verbatim (verbatim @ [text ! pos]) out = Inr ([], o1)"
    from flush_verbatim_tokens[OF fl, of D] full inv inb
    show "I (pos + 1) [] o1"
      by (simp add: I_def)
  next
    fix pos verbatim out
    assume "I pos verbatim out" and "pos < length text"
      and "length (verbatim @ [text ! pos]) \<noteq> 255"
    then show "I (pos + 1) (verbatim @ [text ! pos]) out"
      by (auto simp: I_def)
  qed
  then show ?thesis
    by (auto simp: I_def)
qed


lemma encapsulate_loop_tokens:
  "encapsulate_loop text i output = Inr o' \<Longrightarrow> tokens_of D output \<Longrightarrow> tokens_of D o'"
proof (induction "text" i "output" rule: encapsulate_loop.induct)
  case (1 t i out)
  show ?case
  proof (cases "i < length t")
    case False
    with "1.prems" show ?thesis
      by (simp add: encapsulate_loop.simps[of t i])
  next
    case inb: True
    define chunk where "chunk = slice t i (i + 255)"
    have ne: "chunk \<noteq> []" and le: "length chunk \<le> 255"
      using inb by (auto simp: chunk_def slice_def)
    show ?thesis
    proof (cases "length chunk = 1")
      case True
      then obtain b where b: "chunk = [b]"
        by (cases chunk) auto
      have step: "encapsulate_loop t (i + 255) (out @ [[254] @ chunk]) = Inr o'"
        using "1.prems"(1) inb True
        by (subst (asm) encapsulate_loop.simps)
           (simp add: Let_def chunk_def[symmetric] chr_def)
      have "tokens_of D (out @ [[254] @ chunk])"
        using tokens_of_snoc[OF "1.prems"(2), of "Literal b" "[[254] @ chunk]"] b by simp
      from "1.IH"(1)[OF inb chunk_def True _ step this] show ?thesis
        by (simp add: chr_def)
    next
      case False
      with ne have two: "2 \<le> length chunk"
        by (cases chunk; cases "tl chunk") auto
      have small: "length chunk - 1 < 1114112"
        using le by arith
      have step: "encapsulate_loop t (i + 255) (out @ [[255] @ [length chunk - 1]] @ [chunk])
                    = Inr o'"
        using "1.prems"(1) inb False small
        by (subst (asm) encapsulate_loop.simps)
           (simp add: Let_def chunk_def[symmetric] chr_def)
      have "tokens_of D (out @ [[255] @ [length chunk - 1]] @ [chunk])"
        using tokens_of_snoc[OF "1.prems"(2), of "Run chunk"
            "[[255] @ [length chunk - 1]] @ [chunk]"] two le
        by simp
      from "1.IH"(2)[OF inb chunk_def False _ _ step this] small show ?thesis
        by (simp add: chr_def)
    qed
  qed
qed

lemma compress_body_tokens:
  assumes "lookup_ok D (self_lookup self)"
  shows "\<exists>r ts. compress_body self text = Inr r \<and> r = concat (map serialize ts)
            \<and> list_all (token_ok D) ts"
proof -
  from compress_loop_tokens[OF assms, of "text"]
  obtain v' o' where cl: "compress_loop (self_lookup self) text 0 [] [] = Inr (v', o')"
    and v: "length v' < 255" and t: "tokens_of D o'"
    by blast
  from flush_verbatim_total[of v' o'] v obtain o'' where fl: "flush_verbatim v' o' = Inr ([], o'')"
    by auto
  from flush_verbatim_tokens[OF fl _ t] v have t'': "tokens_of D o''"
    by simp
  show ?thesis
  proof (cases "length (concat o'') > worst_size (length text)")
    case False
    with cl fl t'' show ?thesis
      by (auto simp: compress_body_def tokens_of_def)
  next
    case True
    then have ne: "text \<noteq> []"
      using cl fl by (auto simp: compress_loop.simps flush_verbatim_def worst_size_def)
    obtain e where e: "encapsulate text = Inr e"
      using encapsulate_decodes[of "text" D] by blast
    with ne obtain oe where oe: "encapsulate_loop text 0 [] = Inr oe" and "e = concat oe"
      by (auto simp: encapsulate_def split: sum.splits)
    with encapsulate_loop_tokens[OF oe tokens_of_Nil, of D] cl fl True e show ?thesis
      by (auto simp: compress_body_def tokens_of_def)
  qed
qed


lemma slice_Cons_nth:
  "pos < length text \<Longrightarrow>
     slice text pos (Suc (pos + k)) = text ! pos # slice text (Suc pos) (Suc (pos + k))"
proof -
  assume inb: "pos < length text"
  have "slice text pos (Suc (pos + k)) = take (Suc k) (drop pos text)"
    by (simp add: slice_def drop_take)
  also have "\<dots> = text ! pos # take k (drop (Suc pos) text)"
    using inb by (simp add: Cons_nth_drop_Suc[symmetric])
  also have "take k (drop (Suc pos) text) = slice text (Suc pos) (Suc (pos + k))"
    by (simp add: slice_def drop_take)
  finally show ?thesis .
qed

lemma init_lookup_ok:
  "(Smaz_init D = Inr self \<and> length D \<le> 254) \<or> SmazMultilang_init D = Inr self \<Longrightarrow>
   DECODE self = D \<and> lookup_ok D (self_lookup self)"
  using Smaz_init_lookup_ok[of D self] SmazMultilang_init_lookup_ok[of D self]
    Smaz_init_fields[of D self] SmazMultilang_init_fields[of D self]
  by auto

lemma compress_unchecked: "text \<noteq> [] \<Longrightarrow> compress self text False = compress_body self text"
  by (simp add: compress_def)

lemma compress_loop_match_step:
  assumes "pos < length text"
    and "find_match lk text pos (min 7 (length text - pos)) = (Some code, l)"
    and "code \<noteq> []"
    and "flush_verbatim verbatim output = Inr (v, out)"
  shows "compress_loop lk text pos verbatim output = compress_loop lk text (pos + l) v (out @ [code])"
  using assms by (subst compress_loop.simps) (simp add: Let_def)



lemma nth_notin_drop:
  assumes "j < length D" and "D ! j \<notin> set (drop (Suc j) D)"
  shows "\<forall>k. j < k \<and> k < length D \<longrightarrow> D ! k \<noteq> D ! j"
proof (intro allI impI)
  fix k assume k: "j < k \<and> k < length D"
  then have "D ! k = drop (Suc j) D ! (k - Suc j)" "k - Suc j < length (drop (Suc j) D)"
    by auto
  then have "D ! k \<in> set (drop (Suc j) D)"
    by (metis nth_mem)
  with assms(2) show "D ! k \<noteq> D ! j"
    by auto
qed

lemma Smaz_create_lookup_eval:
  assumes "Smaz_create_lookup D = Inr lk" and "j < length D" and "D ! j \<notin> set (drop (Suc j) D)"
  shows "lk (D ! j) = Some [j]"
  using Smaz_create_lookup_loop_last[of 0 D Map.empty lk j] assms nth_notin_drop[OF assms(2,3)]
  by (simp add: Smaz_create_lookup_def)

lemma SmazMultilang_create_lookup_eval:
  assumes "SmazMultilang_create_lookup D = Inr lk" and "j < length D" and "j < 254"
    and "D ! j \<notin> set (drop (Suc j) (take 254 D))"
  shows "lk (D ! j) = Some [j]"
  using Smaz_create_lookup_eval[of "take 254 D" lk j] assms
  by (simp add: SmazMultilang_create_lookup_cutoff)

lemma length_Smaz_DECODE: "length Smaz_DECODE = 254"
  by (simp add: Smaz_DECODE_def)

lemma length_SmazMultilang_DECODE: "length SmazMultilang_DECODE = 316"
  by (simp add: SmazMultilang_DECODE_def)

lemma Smaz_DECODE_253: "Smaz_DECODE ! 253 = [46, 99, 111, 109]"
  by (simp add: Smaz_DECODE_def)

lemma SmazMultilang_DECODE_das:
  "SmazMultilang_DECODE ! 152 = [100, 97, 115] \<and> SmazMultilang_DECODE ! 154 = [100, 97, 115]
   \<and> [100, 97, 115] \<notin> set (drop 155 (take 254 SmazMultilang_DECODE))"
  by (simp add: SmazMultilang_DECODE_def)


lemma smaz_instance:
  "\<exists>self. smaz_get_instance = Inr self \<and> DECODE self = Smaz_DECODE
     \<and> lookup_ok Smaz_DECODE (self_lookup self)
     \<and> Smaz_create_lookup Smaz_DECODE = Inr (self_lookup self)"
proof -
  obtain lk where lk: "Smaz_create_lookup Smaz_DECODE = Inr lk"
    using Smaz_create_lookup_total[of Smaz_DECODE] by (auto simp: length_Smaz_DECODE)
  then have "lookup_ok Smaz_DECODE lk"
    by (rule Smaz_lookup_ok) (simp add: length_Smaz_DECODE)
  with lk show ?thesis
    by (simp add: smaz_get_instance_def Smaz_init_def)
qed

lemma smaz_multilang_instance:
  "\<exists>self. smaz_multilang_get_instance = Inr self \<and> DECODE self = SmazMultilang_DECODE
     \<and> lookup_ok SmazMultilang_DECODE (self_lookup self)
     \<and> SmazMultilang_create_lookup SmazMultilang_DECODE = Inr (self_lookup self)"
proof -
  obtain lk where lk: "SmazMultilang_create_lookup SmazMultilang_DECODE = Inr lk"
    using SmazMultilang_create_lookup_total by blast
  then have "lookup_ok SmazMultilang_DECODE lk"
    by (rule SmazMultilang_lookup_ok)
  with lk show ?thesis
    by (simp add: smaz_multilang_get_instance_def SmazMultilang_init_def)
qed

lemma SmazMultilang_lookup_last:
  assumes lk: "SmazMultilang_create_lookup D = Inr lk" and i: "i < length D" "i < 254"
  shows "\<exists>j. lk (D ! i) = Some [j] \<and> i \<le> j \<and> j < 254 \<and> j < length D \<and> D ! j = D ! i
           \<and> (\<forall>k. j < k \<and> k < 254 \<and> k < length D \<longrightarrow> D ! k \<noteq> D ! i)"
proof -
  let ?T = "take 254 D"
  have l: "Smaz_create_lookup_loop (enumerate 0 ?T) Map.empty = Inr lk"
    using lk by (simp add: SmazMultilang_create_lookup_cutoff Smaz_create_lookup_def)
  have iT: "i < length ?T" and Ti: "?T ! i = D ! i"
    using i by simp_all
  then have "D ! i \<in> set ?T"
    by (metis nth_mem)
  from last_occurrence[OF this] obtain j where j: "j < length ?T" "?T ! j = D ! i"
    and last: "\<forall>k. j < k \<and> k < length ?T \<longrightarrow> ?T ! k \<noteq> D ! i"
    by blast
  have ij: "i \<le> j"
    using last iT Ti by (metis not_le_imp_less)
  from Smaz_create_lookup_loop_last[OF l j(1)] j(2) last have "lk (D ! i) = Some [j]"
    by simp
  moreover have "\<forall>k. j < k \<and> k < 254 \<and> k < length D \<longrightarrow> D ! k \<noteq> D ! i"
    using last by auto
  ultimately show ?thesis
    using ij j by auto
qed

lemma decompress_append_ok:
  assumes "decompress self pre = Inr s" and "decode_rest (DECODE self) tail = Inr r"
  shows "decompress self (pre @ tail) = Inr (s @ concat r)"
proof -
  from assms(1) obtain p where "decode_rest (DECODE self) pre = Inr p" "concat p = s"
    by (auto simp: decompress_decode_rest split: sum.splits)
  with decode_rest_append[of "DECODE self" pre p tail] assms(2) show ?thesis
    by (simp add: decompress_decode_rest)
qed

lemma decode_rest_serialize:
  "list_all (token_ok D) ts \<Longrightarrow> decode_rest D (concat (map serialize ts)) = Inr (map (expand D) ts)"
proof (induction ts)
  case Nil
  show ?case by simp
next
  case (Cons t ts)
  then have IH: "decode_rest D (concat (map serialize ts)) = Inr (map (expand D) ts)"
    and ok: "token_ok D t"
    by simp_all
  show ?case
  proof (cases t)
    case (Entry i)
    with ok IH show ?thesis by simp
  next
    case (Literal b)
    with IH show ?thesis by simp
  next
    case (Run raw)
    with ok have "2 \<le> length raw" by simp
    then have "length raw - 1 + 1 = length raw" by arith
    with Run ok IH show ?thesis by simp
  qed
qed

lemma serialize_unique:
  "list_all (token_ok D) ts \<Longrightarrow> list_all (token_ok D) ts' \<Longrightarrow>
   concat (map serialize ts) = concat (map serialize ts') \<Longrightarrow> ts = ts'"
proof (induction ts arbitrary: ts')
  case Nil
  then show ?case
    by (cases ts'; cases "hd ts'") auto
next
  case (Cons t ts)
  from Cons.prems(3) obtain t' ts1 where ts': "ts' = t' # ts1"
    by (cases ts'; cases t) auto
  from Cons.prems ts' have ok: "token_ok D t" "token_ok D t'"
    and rest: "list_all (token_ok D) ts" "list_all (token_ok D) ts1"
    and eq: "serialize t @ concat (map serialize ts) = serialize t' @ concat (map serialize ts1)"
    by simp_all
  have "t = t' \<and> concat (map serialize ts) = concat (map serialize ts1)"
  proof (cases t)
    case (Entry i)
    with ok eq show ?thesis by (cases t') auto
  next
    case (Literal b)
    with ok eq show ?thesis by (cases t') auto
  next
    case (Run raw)
    show ?thesis
    proof (cases t')
      case (Entry i)
      with Run ok eq show ?thesis by auto
    next
      case (Literal b)
      with Run ok eq show ?thesis by auto
    next
      case r': (Run raw')
      with Run ok eq have "length raw - 1 = length raw' - 1" "2 \<le> length raw" "2 \<le> length raw'"
        and app: "raw @ concat (map serialize ts) = raw' @ concat (map serialize ts1)"
        by auto
      then have "length raw = length raw'" by arith
      with app Run r' show ?thesis by simp
    qed
  qed
  with Cons.IH[OF rest] ts' show ?case by simp
qed

lemma token_ok_controls: "token_ok D t \<Longrightarrow> c \<in> set (controls t) \<Longrightarrow> c \<le> 255"
  by (cases t) auto

lemma Smaz_create_lookup_absent:
  "Smaz_create_lookup D = Inr lk \<Longrightarrow> s \<notin> set D \<Longrightarrow> lk s = None"
  using Smaz_create_lookup_loop_other[of 0 D Map.empty lk s]
  by (simp add: Smaz_create_lookup_def)

lemma SmazMultilang_create_lookup_absent:
  "SmazMultilang_create_lookup D = Inr lk \<Longrightarrow> s \<notin> set (take 254 D) \<Longrightarrow> lk s = None"
  using Smaz_create_lookup_absent[of "take 254 D" lk s]
  by (simp add: SmazMultilang_create_lookup_cutoff)

lemma compress_tokens_roundtrip:
  assumes "lookup_ok (DECODE self) (self_lookup self)"
  shows "\<exists>r ts. compress_body self text = Inr r \<and> r = concat (map serialize ts)
           \<and> list_all (token_ok (DECODE self)) ts
           \<and> concat (map (expand (DECODE self)) ts) = text
           \<and> decompress self r = Inr text"
proof -
  from compress_body_tokens[OF assms, of "text"] obtain r ts where
    r: "compress_body self text = Inr r" "r = concat (map serialize ts)"
    and all: "list_all (token_ok (DECODE self)) ts"
    by blast
  from compress_body_decodes[OF assms, of "text"] r(1)
  have d: "decodes_to (DECODE self) r text"
    by auto
  with decode_rest_serialize[OF all] r(2)
  have "concat (map (expand (DECODE self)) ts) = text"
    by (simp add: decodes_to_def)
  with r all d show ?thesis
    by (auto simp: decompress_decodes)
qed


lemma no_match_at_iff:
  "no_match_at lk text pos \<longleftrightarrow>
     (\<forall>k. 1 \<le> k \<and> k \<le> min 7 (length text - pos) \<longrightarrow> lk (slice text pos (pos + k)) = None)"
  by (auto simp: no_match_at_def list_all_iff)

lemma find_match_falsy:
  assumes "lookup_ok D lk" and "\<not> truthy (fst (find_match lk text pos (min 7 (length text - pos))))"
  shows "no_match_at lk text pos"
proof -
  obtain bm bl where fm: "find_match lk text pos (min 7 (length text - pos)) = (bm, bl)"
    by (cases "find_match lk text pos (min 7 (length text - pos))")
  have "bm = None"
  proof (cases bm)
    case (Some code)
    with fm find_match_Some[of lk "text" pos "min 7 (length text - pos)" code bl]
    have "lk (slice text pos (pos + bl)) = Some code" by simp
    with assms(1) have "code \<noteq> []"
      unfolding lookup_ok_def by blast
    with assms(2) fm Some show ?thesis by simp
  qed simp
  with fm find_match_None[of lk "text" pos "min 7 (length text - pos)" bl] show ?thesis
    by (simp add: no_match_at_iff)
qed

lemma flush_verbatim_flushed:
  assumes "length buffer \<le> 255"
  shows "\<exists>o1. flush_verbatim buffer output = Inr ([], o1)
           \<and> concat o1 = concat output @ concat (map serialize (flushed buffer))"
proof -
  consider "buffer = []" | b where "buffer = [b]" | "2 \<le> length buffer"
    by (cases buffer; cases "tl buffer") auto
  then show ?thesis
  proof cases
    case 1
    then show ?thesis by (simp add: flush_verbatim_Nil)
  next
    case 2
    then show ?thesis by (simp add: flush_verbatim_single)
  next
    case 3
    then obtain a b rest where "buffer = a # b # rest"
      by (cases buffer; cases "tl buffer") auto
    with 3 assms show ?thesis
      by (simp add: flush_verbatim_run)
  qed
qed

lemma flushed_token_ok: "length buffer \<le> 255 \<Longrightarrow> list_all (token_ok D) (flushed buffer)"
  by (cases buffer; cases "tl buffer") auto

lemma slice_length_le: "pos \<le> length text \<Longrightarrow> p0 \<le> pos \<Longrightarrow> length (slice text p0 pos) = pos - p0"
  by (simp add: length_slice)

lemma slice_snoc:
  "p0 \<le> pos \<Longrightarrow> pos < length text \<Longrightarrow> slice text p0 pos @ [text ! pos] = slice text p0 (pos + 1)"
  by (simp add: slice_def take_Suc_conv_app_nth)

lemma greedy_flushed:
  assumes "p0 \<le> pos" and "pos \<le> length text" and "verbatim = slice text p0 pos"
    and "length verbatim \<le> 255"
    and "list_all (no_match_at lk text) [p0..<pos]"
    and "greedy_from lk D text pos rest"
    and "rest = [] \<or> is_entry (hd rest) \<or> length verbatim = 255"
  shows "greedy_from lk D text p0 (flushed verbatim @ rest)"
proof -
  have len: "length verbatim = pos - p0"
    using assms(1,2,3) by (simp add: slice_length_le)
  consider "verbatim = []" | b where "verbatim = [b]" | "2 \<le> length verbatim"
    by (cases verbatim; cases "tl verbatim") auto
  then show ?thesis
  proof cases
    case 1
    with len assms(1) have "p0 = pos" by simp
    with 1 assms(6) show ?thesis by simp
  next
    case 2
    with len assms(1) have p: "pos = p0 + 1" by simp
    then have inb: "p0 < length text" using assms(2) by simp
    have "slice text p0 (p0 + 1) = [text ! p0]"
      using inb slice_snoc[of p0 p0 "text"] by (simp add: slice_def)
    with 2 p assms(3) have b: "text ! p0 = b" by simp
    from assms(5) p have nm: "no_match_at lk text p0" by simp
    from 2 assms(7) have "rest = [] \<or> is_entry (hd rest)" by auto
    with 2 p inb b nm assms(6) show ?thesis by simp
  next
    case 3
    then obtain a b r where v: "verbatim = a # b # r"
      by (cases verbatim; cases "tl verbatim") auto
    have p: "p0 + length verbatim = pos"
      using len assms(1) by simp
    from 3 assms(7) have "length verbatim = 255 \<or> rest = [] \<or> is_entry (hd rest)" by auto
    with 3 p assms(2,3,4,5,6) have "greedy_from lk D text p0 (Run verbatim # rest)"
      by simp
    with v show ?thesis by simp
  qed
qed

lemma compress_loop_greedy:
  "lookup_ok D lk \<Longrightarrow> pos \<le> length text \<Longrightarrow> p0 \<le> pos \<Longrightarrow> verbatim = slice text p0 pos \<Longrightarrow>
   length verbatim < 255 \<Longrightarrow> list_all (no_match_at lk text) [p0..<pos] \<Longrightarrow>
   \<exists>v' o' o'' ts. compress_loop lk text pos verbatim output = Inr (v', o')
      \<and> flush_verbatim v' o' = Inr ([], o'')
      \<and> concat o'' = concat output @ concat (map serialize ts)
      \<and> greedy_from lk D text p0 ts \<and> list_all (token_ok D) ts"
proof (induction lk "text" pos verbatim "output" arbitrary: p0 rule: compress_loop.induct)
  case (1 lk t pos verbatim out)
  note ok = "1.prems"(1) and pos_le = "1.prems"(2) and p0 = "1.prems"(3)
    and vb = "1.prems"(4) and vlen = "1.prems"(5) and nm = "1.prems"(6)
  show ?case
  proof (cases "pos < length t")
    case False
    with pos_le have pe: "pos = length t" by simp
    from flush_verbatim_flushed[of verbatim out] vlen obtain o1 where
      fl: "flush_verbatim verbatim out = Inr ([], o1)"
      and co: "concat o1 = concat out @ concat (map serialize (flushed verbatim))"
      by auto
    have g: "greedy_from lk D t p0 (flushed verbatim @ [])"
      using greedy_flushed[OF p0 pos_le vb _ nm, of D "[]"] vlen pe by simp
    have tk: "list_all (token_ok D) (flushed verbatim)"
      using flushed_token_ok[of verbatim D] vlen by simp
    have "compress_loop lk t pos verbatim out = Inr (verbatim, out)"
      using False by (subst compress_loop.simps) simp
    with fl co g tk show ?thesis
      by auto
  next
    case inb: True
    define found where "found = find_match lk t pos (min 7 (length t - pos))"
    show ?thesis
    proof (cases "truthy (fst found)")
      case True
      then obtain code where fc: "fst found = Some code"
        by (cases "fst found") auto
      then have fm: "find_match lk t pos (min 7 (length t - pos)) = (Some code, snd found)"
        by (simp add: found_def prod_eq_iff)
      define l where "l = snd found"
      from find_match_Some[OF fm]
      have lkc: "lk (slice t pos (pos + l)) = Some code"
        and len: "1 \<le> l" "l \<le> min 7 (length t - pos)"
        and longer: "\<forall>k. l < k \<and> k \<le> min 7 (length t - pos) \<longrightarrow> lk (slice t pos (pos + k)) = None"
        by (auto simp: l_def)
      from ok[unfolded lookup_ok_def, rule_format, OF lkc]
      obtain i where i: "code = [i]" "i < 254" "i < length D" "D ! i = slice t pos (pos + l)"
        by blast
      have li: "length (D ! i) = l"
        unfolding i(4) length_slice using len(2) inb by arith
      from flush_verbatim_flushed[of verbatim out] vlen obtain o1 where
        fl: "flush_verbatim verbatim out = Inr ([], o1)"
        and co: "concat o1 = concat out @ concat (map serialize (flushed verbatim))"
        by auto
      have "\<exists>v' o' o'' ts. compress_loop lk t (pos + snd found) [] (o1 @ [the (fst found)])
                = Inr (v', o')
          \<and> flush_verbatim v' o' = Inr ([], o'')
          \<and> concat o'' = concat (o1 @ [the (fst found)]) @ concat (map serialize ts)
          \<and> greedy_from lk D t (pos + snd found) ts \<and> list_all (token_ok D) ts"
        using len inb
        by (intro "1.IH"(1)[OF inb found_def refl refl True fl refl ok])
           (auto simp: l_def slice_def)
      then obtain v' o' o'' ts where
        cl: "compress_loop lk t (pos + l) [] (o1 @ [code]) = Inr (v', o')"
        and fl': "flush_verbatim v' o' = Inr ([], o'')"
        and co': "concat o'' = concat (o1 @ [code]) @ concat (map serialize ts)"
        and g: "greedy_from lk D t (pos + l) ts" and tk: "list_all (token_ok D) ts"
        using fc by (auto simp: l_def)
      have la: "list_all (\<lambda>k. lk (slice t pos (pos + k)) = None)
                  [Suc l..<Suc (min 7 (length t - pos))]"
        unfolding list_all_iff
      proof
        fix k assume "k \<in> set [Suc l..<Suc (min 7 (length t - pos))]"
        then have "Suc l \<le> k \<and> k < Suc (min 7 (length t - pos))"
          by (simp del: upt_Suc)
        then have "l < k \<and> k \<le> min 7 (length t - pos)"
          by arith
        with longer show "lk (slice t pos (pos + k)) = None"
          by blast
      qed
      have lkd: "lk (D ! i) = Some [i]"
        using lkc i(1,4) by simp
      have sl: "slice t pos (pos + length (D ! i)) = D ! i"
        using li i(4) by simp
      have ge: "greedy_from lk D t pos (Entry i # ts)"
        unfolding greedy_from.simps li
        using len la lkd sl[unfolded li] g by blast
      have g0: "greedy_from lk D t p0 (flushed verbatim @ Entry i # ts)"
        using greedy_flushed[OF p0 pos_le vb _ nm ge] vlen by simp
      have tk0: "list_all (token_ok D) (flushed verbatim @ Entry i # ts)"
        using flushed_token_ok[of verbatim D] vlen tk li len i by simp
      have step: "compress_loop lk t pos verbatim out = compress_loop lk t (pos + l) [] (o1 @ [code])"
        using inb True fl fc
        by (subst compress_loop.simps) (simp add: Let_def found_def[symmetric] l_def)
      have c0: "compress_loop lk t pos verbatim out = Inr (v', o')"
        using step cl by simp
      have "concat o'' = concat out @ concat (map serialize (flushed verbatim @ Entry i # ts))"
        using co co' i(1) by simp
      with c0 fl' g0 tk0 show ?thesis
        by blast
    next
      case nomatch: False
      then have nmp: "no_match_at lk t pos"
        using find_match_falsy[OF ok, of t pos] by (simp add: found_def)
      define v1 where "v1 = verbatim @ [t ! pos]"
      have v1s: "v1 = slice t p0 (pos + 1)"
        using slice_snoc[OF p0 inb] vb by (simp add: v1_def)
      have nm1: "list_all (no_match_at lk t) [p0..<pos + 1]"
        using nm nmp p0 by simp
      show ?thesis
      proof (cases "length v1 = 255")
        case True
        from flush_verbatim_flushed[of v1 out] True obtain o1 where
          fl: "flush_verbatim v1 out = Inr ([], o1)"
          and co: "concat o1 = concat out @ concat (map serialize (flushed v1))"
          by auto
        have "\<exists>v' o' o'' ts. compress_loop lk t (pos + 1) [] o1 = Inr (v', o')
            \<and> flush_verbatim v' o' = Inr ([], o'')
            \<and> concat o'' = concat o1 @ concat (map serialize ts)
            \<and> greedy_from lk D t (pos + 1) ts \<and> list_all (token_ok D) ts"
          using inb
          by (intro "1.IH"(2)[OF inb found_def refl refl nomatch v1_def True fl refl ok])
             (auto simp: slice_def)
        then obtain v' o' o'' ts where
          cl: "compress_loop lk t (pos + 1) [] o1 = Inr (v', o')"
          and fl': "flush_verbatim v' o' = Inr ([], o'')"
          and co': "concat o'' = concat o1 @ concat (map serialize ts)"
          and g: "greedy_from lk D t (pos + 1) ts" and tk: "list_all (token_ok D) ts"
          by blast
        have g0: "greedy_from lk D t p0 (flushed v1 @ ts)"
          using greedy_flushed[OF _ _ v1s _ nm1 g] p0 inb True by simp
        have tk0: "list_all (token_ok D) (flushed v1 @ ts)"
          using flushed_token_ok[of v1 D] True tk by simp
        have step: "compress_loop lk t pos verbatim out = compress_loop lk t (pos + 1) [] o1"
          using inb nomatch True fl
          by (subst compress_loop.simps)
             (simp add: Let_def found_def[symmetric] v1_def[symmetric])
        have c0: "compress_loop lk t pos verbatim out = Inr (v', o')"
          using step cl by simp
        have "concat o'' = concat out @ concat (map serialize (flushed v1 @ ts))"
          using co co' by simp
        with c0 fl' g0 tk0 show ?thesis
          by blast
      next
        case False
        have v1len: "length v1 < 255"
          using vlen False by (simp add: v1_def)
        have a: "pos + 1 \<le> length t" "p0 \<le> pos + 1"
          using inb p0 by simp_all
        have "\<exists>v' o' o'' ts. compress_loop lk t (pos + 1) v1 out = Inr (v', o')
            \<and> flush_verbatim v' o' = Inr ([], o'')
            \<and> concat o'' = concat out @ concat (map serialize ts)
            \<and> greedy_from lk D t p0 ts \<and> list_all (token_ok D) ts"
          using "1.IH"(3)[OF inb found_def refl refl nomatch v1_def False ok a v1s v1len nm1] .
        moreover have "compress_loop lk t pos verbatim out = compress_loop lk t (pos + 1) v1 out"
          using inb nomatch False
          by (subst compress_loop.simps)
             (simp add: Let_def found_def[symmetric] v1_def[symmetric])
        ultimately show ?thesis
          by simp
      qed
    qed
  qed
qed

lemma compress_body_greedy:
  assumes "lookup_ok D (self_lookup self)"
  shows "\<exists>ts. greedy_from (self_lookup self) D text 0 ts \<and> list_all (token_ok D) ts
           \<and> compress_body self text =
               (if length (concat (map serialize ts)) > worst_size (length text)
                then encapsulate text else Inr (concat (map serialize ts)))"
proof -
  from compress_loop_greedy[OF assms, of 0 "text" 0 "[]" "[]"]
  obtain v' o' o'' ts where
    "compress_loop (self_lookup self) text 0 [] [] = Inr (v', o')"
    "flush_verbatim v' o' = Inr ([], o'')"
    "concat o'' = concat (map serialize ts)"
    "greedy_from (self_lookup self) D text 0 ts" "list_all (token_ok D) ts"
    by (auto simp: slice_def)
  then show ?thesis
    by (intro exI[of _ ts]) (simp add: compress_body_def Let_def)
qed


lemma greedy_EntryD:
  assumes "greedy_from lk D text pos (Entry i # ts)"
  shows "1 \<le> length (D ! i)" "length (D ! i) \<le> min 7 (length text - pos)"
    "slice text pos (pos + length (D ! i)) = D ! i" "lk (D ! i) = Some [i]"
    "\<And>k. length (D ! i) < k \<Longrightarrow> k \<le> min 7 (length text - pos) \<Longrightarrow>
       lk (slice text pos (pos + k)) = None"
    "greedy_from lk D text (pos + length (D ! i)) ts"
proof -
  from assms have a: "1 \<le> length (D ! i) \<and> length (D ! i) \<le> min 7 (length text - pos)
      \<and> slice text pos (pos + length (D ! i)) = D ! i
      \<and> lk (D ! i) = Some [i]
      \<and> list_all (\<lambda>k. lk (slice text pos (pos + k)) = None)
           [Suc (length (D ! i))..<Suc (min 7 (length text - pos))]
      \<and> greedy_from lk D text (pos + length (D ! i)) ts"
    by (simp only: greedy_from.simps)
  then show "1 \<le> length (D ! i)" "length (D ! i) \<le> min 7 (length text - pos)"
    "slice text pos (pos + length (D ! i)) = D ! i" "lk (D ! i) = Some [i]"
    "greedy_from lk D text (pos + length (D ! i)) ts"
    by blast+
  fix k assume "length (D ! i) < k" "k \<le> min 7 (length text - pos)"
  then have "k \<in> set [Suc (length (D ! i))..<Suc (min 7 (length text - pos))]"
    by (simp only: set_upt atLeastLessThan_iff) arith
  with a show "lk (slice text pos (pos + k)) = None"
    unfolding list_all_iff by blast
qed

lemma greedy_LiteralD:
  assumes "greedy_from lk D text pos (Literal b # ts)"
  shows "pos < length text" "text ! pos = b" "no_match_at lk text pos"
    "ts = [] \<or> is_entry (hd ts)" "greedy_from lk D text (pos + 1) ts"
  using assms by (simp_all only: greedy_from.simps)

lemma greedy_RunD:
  assumes "greedy_from lk D text pos (Run raw # ts)"
  shows "2 \<le> length raw" "length raw \<le> 255" "pos + length raw \<le> length text"
    "slice text pos (pos + length raw) = raw"
    "\<And>p. pos \<le> p \<Longrightarrow> p < pos + length raw \<Longrightarrow> no_match_at lk text p"
    "length raw = 255 \<or> ts = [] \<or> is_entry (hd ts)"
    "greedy_from lk D text (pos + length raw) ts"
proof -
  from assms have a: "2 \<le> length raw \<and> length raw \<le> 255 \<and> pos + length raw \<le> length text
      \<and> slice text pos (pos + length raw) = raw
      \<and> list_all (no_match_at lk text) [pos..<pos + length raw]
      \<and> (length raw = 255 \<or> ts = [] \<or> is_entry (hd ts))
      \<and> greedy_from lk D text (pos + length raw) ts"
    by (simp only: greedy_from.simps)
  then show "2 \<le> length raw" "length raw \<le> 255" "pos + length raw \<le> length text"
    "slice text pos (pos + length raw) = raw"
    "length raw = 255 \<or> ts = [] \<or> is_entry (hd ts)"
    "greedy_from lk D text (pos + length raw) ts"
    by blast+
  fix p assume "pos \<le> p" "p < pos + length raw"
  then have "p \<in> set [pos..<pos + length raw]"
    by (simp only: set_upt atLeastLessThan_iff) 
  with a show "no_match_at lk text p"
    unfolding list_all_iff by blast
qed

lemma greedy_entry_match:
  assumes "greedy_from lk D text pos (Entry i # ts)"
  shows "\<not> no_match_at lk text pos"
proof
  assume "no_match_at lk text pos"
  then have "lk (slice text pos (pos + length (D ! i))) = None"
    using greedy_EntryD(1,2)[OF assms] unfolding no_match_at_iff by blast
  then have "lk (D ! i) = None"
    by (simp only: greedy_EntryD(3)[OF assms])
  with greedy_EntryD(4)[OF assms] show False
    by (simp only: option.distinct)
qed

lemma greedy_rest_stop:
  assumes "greedy_from lk D text p rest" and "rest = [] \<or> is_entry (hd rest)"
  shows "p = length text \<or> \<not> no_match_at lk text p"
proof (cases rest)
  case Nil
  with assms(1) show ?thesis by simp
next
  case (Cons t ts)
  with assms(2) obtain i where "t = Entry i"
    by (cases t) auto
  with Cons assms(1) greedy_entry_match[of lk D "text" p i ts] show ?thesis
    by blast
qed

lemma greedy_entry_unique:
  assumes "greedy_from lk D text pos (Entry i # ts)" and "greedy_from lk D text pos (Entry j # ts')"
  shows "i = j"
proof -
  note i = greedy_EntryD[OF assms(1)] and j = greedy_EntryD[OF assms(2)]
  have "\<not> length (D ! i) < length (D ! j)"
  proof
    assume "length (D ! i) < length (D ! j)"
    from i(5)[OF this j(2)] have "lk (D ! j) = None"
      by (simp only: j(3))
    with j(4) show False
      by (simp only: option.distinct)
  qed
  moreover have "\<not> length (D ! j) < length (D ! i)"
  proof
    assume "length (D ! j) < length (D ! i)"
    from j(5)[OF this i(2)] have "lk (D ! i) = None"
      by (simp only: i(3))
    with i(4) show False
      by (simp only: option.distinct)
  qed
  ultimately have eq: "length (D ! i) = length (D ! j)"
    by arith
  have "D ! i = slice text pos (pos + length (D ! i))"
    using i(3) by (rule sym)
  also have "\<dots> = slice text pos (pos + length (D ! j))"
    by (simp only: eq)
  also have "\<dots> = D ! j"
    by (rule j(3))
  finally have "D ! i = D ! j" .
  with i(4) have "lk (D ! j) = Some [i]"
    by (simp only:)
  with j(4) have "Some [i] = Some [j]"
    by (simp only:)
  then show ?thesis
    by simp
qed


lemma greedy_ConsD:
  assumes g: "greedy_from lk D text pos (t # ts)"
  shows "pos < length text"
proof (cases t)
  case (Entry i)
  from greedy_EntryD(1,2)[OF g[unfolded Entry]] show ?thesis
    by arith
next
  case (Literal b)
  from greedy_LiteralD(1)[OF g[unfolded Literal]] show ?thesis .
next
  case (Run raw)
  from greedy_RunD(1,3)[OF g[unfolded Run]] show ?thesis
    by arith
qed

lemma greedy_from_unique:
  "greedy_from lk D text pos ts \<Longrightarrow> greedy_from lk D text pos ts' \<Longrightarrow> ts = ts'"
proof (induction ts arbitrary: pos ts')
  case Nil
  then have e: "pos = length text"
    by (simp only: greedy_from.simps)
  show ?case
  proof (cases ts')
    case Nil
    then show ?thesis by simp
  next
    case (Cons t' r')
    with Nil.prems(2) greedy_ConsD[of lk D "text" pos t' r'] e show ?thesis
      by simp
  qed
next
  case (Cons t ts)
  note g1 = Cons.prems(1) and g2 = Cons.prems(2)
  have inb: "pos < length text"
    using g1 by (rule greedy_ConsD)
  obtain t' r' where ts': "ts' = t' # r'"
  proof (cases ts')
    case Nil
    with g2 have "pos = length text" by (simp only: greedy_from.simps)
    with inb show ?thesis by simp
  next
    case (Cons a list)
    then show ?thesis using that by blast
  qed
  note g2' = g2[unfolded ts']
  show ?case
  proof (cases t)
    case (Entry i)
    note g1' = g1[unfolded Entry]
    have m: "\<not> no_match_at lk text pos"
      using g1' by (rule greedy_entry_match)
    show ?thesis
    proof (cases t')
      case e': (Entry j)
      note g2'' = g2'[unfolded e']
      have ij: "i = j"
        using g1' g2'' by (rule greedy_entry_unique)
      have "greedy_from lk D text (pos + length (D ! i)) r'"
        using greedy_EntryD(6)[OF g2''] by (simp only: ij)
      with Cons.IH[OF greedy_EntryD(6)[OF g1']] have "ts = r'" .
      with ij Entry e' ts' show ?thesis by simp
    next
      case (Literal b)
      with g2' m greedy_LiteralD(3)[of lk D "text" pos b r'] show ?thesis
        by blast
    next
      case (Run raw)
      note g2'' = g2'[unfolded Run]
      have "pos < pos + length raw"
        using greedy_RunD(1)[OF g2''] by arith
      with greedy_RunD(5)[OF g2'', of pos] m show ?thesis
        by simp
    qed
  next
    case (Literal b)
    note g1' = g1[unfolded Literal]
    note l1 = greedy_LiteralD[OF g1']
    show ?thesis
    proof (cases t')
      case (Entry j)
      with g2' greedy_entry_match[of lk D "text" pos j r'] l1(3) show ?thesis
        by blast
    next
      case l': (Literal b')
      note l2 = greedy_LiteralD[OF g2'[unfolded l']]
      from Cons.IH[OF l1(5) l2(5)] have "ts = r'" .
      moreover from l1(2) l2(2) have "b = b'" by simp
      ultimately show ?thesis
        using Literal l' ts' by simp
    next
      case (Run raw)
      note r2 = greedy_RunD[OF g2'[unfolded Run]]
      have "pos \<le> pos + 1" "pos + 1 < pos + length raw"
        using r2(1) by arith+
      then have nm: "no_match_at lk text (pos + 1)"
        by (rule r2(5))
      have "pos + 1 \<noteq> length text"
        using r2(1,3) by arith
      with greedy_rest_stop[OF l1(5) l1(4)] nm show ?thesis
        by blast
    qed
  next
    case (Run raw)
    note g1' = g1[unfolded Run]
    note r1 = greedy_RunD[OF g1']
    show ?thesis
    proof (cases t')
      case (Entry j)
      have "pos < pos + length raw"
        using r1(1) by arith
      with r1(5)[of pos] have "no_match_at lk text pos" by simp
      with Entry g2' greedy_entry_match[of lk D "text" pos j r'] show ?thesis
        by blast
    next
      case (Literal b')
      note l2 = greedy_LiteralD[OF g2'[unfolded Literal]]
      have "pos \<le> pos + 1" "pos + 1 < pos + length raw"
        using r1(1) by arith+
      then have nm: "no_match_at lk text (pos + 1)"
        by (rule r1(5))
      have "pos + 1 \<noteq> length text"
        using r1(1,3) by arith
      with greedy_rest_stop[OF l2(5) l2(4)] nm show ?thesis
        by blast
    next
      case r: (Run raw')
      note r2 = greedy_RunD[OF g2'[unfolded r]]
      have "\<not> length raw < length raw'"
      proof
        assume lt: "length raw < length raw'"
        with r2(2) have "length raw \<noteq> 255" by arith
        with r1(6) have stop: "ts = [] \<or> is_entry (hd ts)" by blast
        have "pos \<le> pos + length raw" "pos + length raw < pos + length raw'"
          using lt by arith+
        then have nm: "no_match_at lk text (pos + length raw)"
          by (rule r2(5))
        have "pos + length raw \<noteq> length text"
          using lt r2(3) by arith
        with greedy_rest_stop[OF r1(7) stop] nm show False
          by blast
      qed
      moreover have "\<not> length raw' < length raw"
      proof
        assume lt: "length raw' < length raw"
        with r1(2) have "length raw' \<noteq> 255" by arith
        with r2(6) have stop: "r' = [] \<or> is_entry (hd r')" by blast
        have "pos \<le> pos + length raw'" "pos + length raw' < pos + length raw"
          using lt by arith+
        then have nm: "no_match_at lk text (pos + length raw')"
          by (rule r1(5))
        have "pos + length raw' \<noteq> length text"
          using lt r1(3) by arith
        with greedy_rest_stop[OF r2(7) stop] nm show False
          by blast
      qed
      ultimately have eq: "length raw = length raw'" by arith
      have "raw = slice text pos (pos + length raw)"
        using r1(4) by (rule sym)
      also have "\<dots> = slice text pos (pos + length raw')"
        by (simp only: eq)
      also have "\<dots> = raw'"
        by (rule r2(4))
      finally have rr: "raw = raw'" .
      have "greedy_from lk D text (pos + length raw) r'"
        using r2(7) by (simp only: eq)
      with Cons.IH[OF r1(7)] have "ts = r'" .
      with rr Run r ts' show ?thesis by simp
    qed
  qed
qed


lemma find_match_no_match:
  assumes "no_match_at lk text pos"
  shows "find_match lk text pos (min 7 (length text - pos)) = (None, 0)"
proof -
  obtain bm bl where fm: "find_match lk text pos (min 7 (length text - pos)) = (bm, bl)"
    by (cases "find_match lk text pos (min 7 (length text - pos))")
  have "bm = None"
  proof (cases bm)
    case None
    then show ?thesis .
  next
    case (Some code)
    from find_match_Some[OF fm[unfolded Some]]
    have "lk (slice text pos (pos + bl)) = Some code" "1 \<le> bl" "bl \<le> min 7 (length text - pos)"
      by blast+
    with assms[unfolded no_match_at_iff] show ?thesis
      by (metis option.distinct(1))
  qed
  with fm find_match_None[of lk "text" pos "min 7 (length text - pos)" bl] show ?thesis
    by simp
qed

lemma compress_loop_nomatch_step:
  assumes "pos < length text"
    and "\<not> truthy (fst (find_match lk text pos (min 7 (length text - pos))))"
  shows "compress_loop lk text pos verbatim output =
     (if length (verbatim @ [text ! pos]) = 255 then
        (case flush_verbatim (verbatim @ [text ! pos]) output of
           Inl e \<Rightarrow> Inl e
         | Inr (v, out) \<Rightarrow> compress_loop lk text (pos + 1) v out)
      else compress_loop lk text (pos + 1) (verbatim @ [text ! pos]) output)"
  using assms by (subst compress_loop.simps) (simp add: Let_def)

lemma compress_loop_literal_step:
  assumes "no_match_at lk text pos" and "pos < length text"
  shows "compress_loop lk text pos verbatim output =
     (if length (verbatim @ [text ! pos]) = 255 then
        (case flush_verbatim (verbatim @ [text ! pos]) output of
           Inl e \<Rightarrow> Inl e
         | Inr (v, out) \<Rightarrow> compress_loop lk text (pos + 1) v out)
      else compress_loop lk text (pos + 1) (verbatim @ [text ! pos]) output)"
  using compress_loop_nomatch_step[OF assms(2), of lk verbatim "output"]
    find_match_no_match[OF assms(1)]
  by simp

lemma compress_loop_literals:
  assumes "\<forall>p<length text. no_match_at lk text p"
  shows "pos + k \<le> length text \<Longrightarrow> length verbatim + k < 255 \<Longrightarrow>
         compress_loop lk text pos verbatim output
           = compress_loop lk text (pos + k) (verbatim @ slice text pos (pos + k)) output"
proof (induction k arbitrary: pos verbatim)
  case 0
  show ?case by (simp add: slice_def)
next
  case (Suc k)
  then have inb: "pos < length text" by simp
  with assms have nm: "no_match_at lk text pos" by blast
  have "compress_loop lk text pos verbatim output
          = compress_loop lk text (Suc pos) (verbatim @ [text ! pos]) output"
    using compress_loop_literal_step[OF nm inb, of verbatim "output"] Suc.prems(2)
    by simp
  also have "\<dots> = compress_loop lk text (Suc pos + k)
                      ((verbatim @ [text ! pos]) @ slice text (Suc pos) (Suc pos + k)) output"
    using Suc.prems by (intro Suc.IH) simp_all
  finally show ?case
    using inb by (simp add: slice_Cons_nth)
qed

lemma compress_body_matchless_300:
  assumes H: "\<forall>p<length text. no_match_at (self_lookup self) text p"
    and len: "length text = 300"
  shows "compress_body self text = Inr (255 # 254 # take 255 text @ 255 # 44 # drop 255 text)"
proof -
  let ?lk = "self_lookup self"
  have a: "compress_loop ?lk text 0 [] [] = compress_loop ?lk text 254 (slice text 0 254) []"
    using compress_loop_literals[OF H, of 0 254 "[]" "[]"] len by simp
  have s1: "slice text 0 254 @ [text ! 254] = take 255 text"
    using len take_Suc_conv_app_nth[of 254 "text"] by (simp add: slice_def)
  have nm: "no_match_at ?lk text 254"
    using H len by simp
  have b: "compress_loop ?lk text 254 (slice text 0 254) []
             = compress_loop ?lk text 255 [] [[255, 254], take 255 text]"
    using compress_loop_literal_step[OF nm, of "slice text 0 254" "[]"] len s1
    by (simp add: flush_verbatim_run length_slice)
  have s2: "slice text 255 300 = drop 255 text"
    using len by (simp add: slice_def)
  have c: "compress_loop ?lk text 255 [] [[255, 254], take 255 text]
             = compress_loop ?lk text 300 (drop 255 text) [[255, 254], take 255 text]"
    using compress_loop_literals[OF H, of 255 45 "[]" "[[255, 254], take 255 text]"] len s2
    by simp
  have d: "compress_loop ?lk text 300 (drop 255 text) [[255, 254], take 255 text]
             = Inr (drop 255 text, [[255, 254], take 255 text])"
    using len by (subst compress_loop.simps) simp
  have f: "flush_verbatim (drop 255 text) [[255, 254], take 255 text]
             = Inr ([], [[255, 254], take 255 text, [255, 44], drop 255 text])"
    using len by (simp add: flush_verbatim_run)
  have w: "worst_size 300 = 304"
    by (simp add: worst_size_def)
  show ?thesis
    using a b c d f w len
    by (simp add: compress_body_def)
qed

lemma compress_body_Nil: "compress_body self [] = Inr []"
  by (simp add: compress_body_def compress_loop.simps flush_verbatim_def worst_size_def)

lemma compress_unchecked_body: "compress self text False = compress_body self text"
  by (cases "text = []") (simp_all add: compress_def compress_body_Nil)

lemma SmazMultilang_compress_unchecked_body:
  "SmazMultilang_compress self text False = compress_body self text"
  by (cases "text = []") (simp_all add: SmazMultilang_compress_def compress_body_Nil)

lemma compress_checked_body:
  "check_ascii \<longrightarrow> is_ascii text \<Longrightarrow> compress self text check_ascii = compress_body self text"
  by (cases "text = []") (auto simp: compress_def compress_body_Nil)

lemma SmazMultilang_compress_checked_body:
  "check_ascii \<longrightarrow> is_ascii text \<Longrightarrow>
   SmazMultilang_compress self text check_ascii = compress_body self text"
  by (cases "text = []")
     (auto simp: SmazMultilang_compress_def compress_body_Nil check_all_ascii_is_ascii)



lemma compress_greedy_stream:
  assumes "(Smaz_init D = Inr self \<and> length D \<le> 254) \<or> SmazMultilang_init D = Inr self"
    and acc: "check_ascii \<longrightarrow> is_ascii text"
  shows "\<exists>ts. greedy_from (self_lookup self) D text 0 ts \<and> list_all (token_ok D) ts
           \<and> (\<forall>ts'. greedy_from (self_lookup self) D text 0 ts' \<longrightarrow> ts' = ts)
           \<and> compress self text check_ascii =
               (if length (concat (map serialize ts)) > worst_size (length text)
                then encapsulate text else Inr (concat (map serialize ts)))
           \<and> SmazMultilang_compress self text check_ascii = compress self text check_ascii"
proof -
  from assms(1) have ok: "lookup_ok D (self_lookup self)"
    using init_lookup_ok by blast
  from compress_body_greedy[OF ok, of "text"] obtain ts where
    g: "greedy_from (self_lookup self) D text 0 ts" and tk: "list_all (token_ok D) ts"
    and c: "compress_body self text =
               (if length (concat (map serialize ts)) > worst_size (length text)
                then encapsulate text else Inr (concat (map serialize ts)))"
    by blast
  have u: "\<forall>ts'. greedy_from (self_lookup self) D text 0 ts' \<longrightarrow> ts' = ts"
  proof (intro allI impI)
    fix ts' assume "greedy_from (self_lookup self) D text 0 ts'"
    then show "ts' = ts" using g by (rule greedy_from_unique)
  qed
  have c1: "compress self text check_ascii =
               (if length (concat (map serialize ts)) > worst_size (length text)
                then encapsulate text else Inr (concat (map serialize ts)))"
    using c by (simp only: compress_checked_body[OF acc])
  have c2: "SmazMultilang_compress self text check_ascii = compress self text check_ascii"
    by (simp only: compress_checked_body[OF acc] SmazMultilang_compress_checked_body[OF acc])
  from g tk u c1 c2 show ?thesis
    by blast
qed

lemma compress_stream_reading:
  assumes "(Smaz_init D = Inr self \<and> length D \<le> 254) \<or> SmazMultilang_init D = Inr self"
    and acc: "check_ascii \<longrightarrow> is_ascii text"
  shows "\<exists>r ts. compress self text check_ascii = Inr r \<and> r = concat (map serialize ts)
           \<and> list_all (token_ok D) ts
           \<and> (\<forall>ts'. list_all (token_ok D) ts' \<and> r = concat (map serialize ts') \<longrightarrow> ts' = ts)
           \<and> decompress self r = Inr (concat (map (expand D) ts))
           \<and> concat (map (expand D) ts) = text"
proof -
  from assms(1) have D: "DECODE self = D" and ok: "lookup_ok (DECODE self) (self_lookup self)"
    using init_lookup_ok[of D self] by auto
  from compress_tokens_roundtrip[OF ok, of "text"] D obtain r ts where
    r: "compress_body self text = Inr r" "r = concat (map serialize ts)"
    and all: "list_all (token_ok D) ts"
    and ex: "concat (map (expand D) ts) = text"
    and rt: "decompress self r = Inr text"
    by auto
  have uniq: "\<forall>ts'. list_all (token_ok D) ts' \<and> r = concat (map serialize ts') \<longrightarrow> ts' = ts"
  proof (intro allI impI)
    fix ts' assume a: "list_all (token_ok D) ts' \<and> r = concat (map serialize ts')"
    then have "concat (map serialize ts') = concat (map serialize ts)"
      using r(2) by (simp only:)
    with a all show "ts' = ts"
      using serialize_unique[of D ts' ts] by blast
  qed
  have c0: "compress self text check_ascii = Inr r"
    using r(1) by (simp only: compress_checked_body[OF acc])
  have rt': "decompress self r = Inr (concat (map (expand D) ts))"
    using rt by (simp only: ex)
  from c0 r(2) all uniq rt' ex show ?thesis
    by blast
qed

section \<open>Results\<close>

text \<open>
  C1. Round trip. Let \<open>self\<close> be an instance built from a table \<open>D\<close>: by \<open>Smaz.__init__\<close>
  from a table of at most 254 entries (the shipped one has 254), or by
  \<open>SmazMultilang.__init__\<close> from any table. For every text that passes the ASCII check
  when the check is on, and for every text when it is off, \<open>compress\<close> returns a stream
  and \<open>decompress\<close> of that stream returns the text. The same holds for the stream that
  \<open>_encapsulate\<close> builds, which is what \<open>compress\<close> returns when the token stream is
  longer than the worst-case size.
\<close>

theorem compress_decompress_roundtrip:
  assumes "check_ascii \<longrightarrow> is_ascii text"
  shows "(Smaz_init D = Inr self \<and> length D \<le> 254 \<longrightarrow>
            (\<exists>r. compress self text check_ascii = Inr r \<and> decompress self r = Inr text))
       \<and> (SmazMultilang_init D = Inr self \<longrightarrow>
            (\<exists>r. SmazMultilang_compress self text check_ascii = Inr r
                 \<and> decompress self r = Inr text))
       \<and> (\<exists>r. encapsulate text = Inr r \<and> decompress self r = Inr text)"
proof (intro conjI impI)
  assume "Smaz_init D = Inr self \<and> length D \<le> 254"
  then have "lookup_ok (DECODE self) (self_lookup self)"
    by (auto intro: Smaz_init_lookup_ok)
  from compress_body_decodes[OF this, of "text"] obtain r where
    r: "compress_body self text = Inr r" and "decodes_to (DECODE self) r text"
    by blast
  then have "decompress self r = Inr text"
    by (simp add: decompress_decodes)
  with assms r show "\<exists>r. compress self text check_ascii = Inr r \<and> decompress self r = Inr text"
    by (cases "text = []") (auto simp: compress_def decompress_def)
next
  assume "SmazMultilang_init D = Inr self"
  then have "lookup_ok (DECODE self) (self_lookup self)"
    by (rule SmazMultilang_init_lookup_ok)
  from compress_body_decodes[OF this, of "text"] obtain r where
    r: "compress_body self text = Inr r" and "decodes_to (DECODE self) r text"
    by blast
  then have "decompress self r = Inr text"
    by (simp add: decompress_decodes)
  with assms r show "\<exists>r. SmazMultilang_compress self text check_ascii = Inr r
                     \<and> decompress self r = Inr text"
    by (cases "text = []")
       (auto simp: SmazMultilang_compress_def decompress_def check_all_ascii_is_ascii)
next
  from encapsulate_decodes[of "text" "DECODE self"]
  show "\<exists>r. encapsulate text = Inr r \<and> decompress self r = Inr text"
    by (auto simp: decompress_decodes)
qed

theorem compress_decompress_roundtrip_witness:
  "is_ascii [88, 101, 88, 101, 88, 101]
   \<and> Smaz_init [[101]] = Inr \<lparr>DECODE = [[101]], self_lookup = [[101] \<mapsto> [0]]\<rparr>
   \<and> length [[101::nat]] \<le> 254
   \<and> SmazMultilang_init [[101]] = Inr \<lparr>DECODE = [[101]], self_lookup = [[101] \<mapsto> [0]]\<rparr>
   \<and> compress \<lparr>DECODE = [[101]], self_lookup = [[101] \<mapsto> [0]]\<rparr>
         [88, 101, 88, 101, 88, 101] True = Inr [255, 5, 88, 101, 88, 101, 88, 101]
   \<and> decompress \<lparr>DECODE = [[101]], self_lookup = [[101] \<mapsto> [0]]\<rparr>
         [255, 5, 88, 101, 88, 101, 88, 101] = Inr [88, 101, 88, 101, 88, 101]"
proof -
  have a: "True \<longrightarrow> is_ascii [88, 101, 88, 101, 88, 101]"
    by simp
  have i1: "Smaz_init [[101]] = Inr \<lparr>DECODE = [[101]], self_lookup = [[101] \<mapsto> [0]]\<rparr>"
    by (simp add: Smaz_init_def Smaz_create_lookup_def chr_def)
  have i2: "SmazMultilang_init [[101]]
              = Inr \<lparr>DECODE = [[101]], self_lookup = [[101] \<mapsto> [0]]\<rparr>"
    by (simp add: SmazMultilang_init_def SmazMultilang_create_lookup_def chr_def)
  have c: "compress \<lparr>DECODE = [[101]], self_lookup = [[101] \<mapsto> [0]]\<rparr>
             [88, 101, 88, 101, 88, 101] True = Inr [255, 5, 88, 101, 88, 101, 88, 101]"
    by (simp add: compress_def compress_body_def compress_loop.simps flush_verbatim_def chr_def
        slice_def worst_size_def encapsulate_def encapsulate_loop.simps Let_def
        find_match_numeral)
  from compress_decompress_roundtrip[OF a,
      of "[[101]]" "\<lparr>DECODE = [[101]], self_lookup = [[101] \<mapsto> [0]]\<rparr>"] i1 i2 c
  show ?thesis
    by simp
qed

text \<open>
  C2. Bounded expansion. The stream that \<open>compress\<close> returns (for every text when the ASCII
  check is off, for every ASCII text when it is on, in both classes and for any instance) is
  never longer than \<open>_worst_size\<close> of the length of the text. When the token stream that
  the loop and the last flush built is longer than that, what is returned is the result of
  \<open>_encapsulate\<close>, which always exists and is itself within the bound. \<open>_worst_size\<close> is
  0 at 0, 2 at 1, and from 2 on \<open>n + 2 * (n div 255)\<close> plus 2 when 255 does not divide \<open>n\<close>.
\<close>

theorem bounded_expansion:
  "((check_ascii \<longrightarrow> is_ascii text) \<longrightarrow>
      (\<exists>r. compress self text check_ascii = Inr r \<and> length r \<le> worst_size (length text)))
   \<and> ((check_ascii \<longrightarrow> is_ascii text) \<longrightarrow>
      (\<exists>r. SmazMultilang_compress self text check_ascii = Inr r
           \<and> length r \<le> worst_size (length text)))
   \<and> (compress_loop (self_lookup self) text 0 [] [] = Inr (v, out)
        \<and> flush_verbatim v out = Inr (v', out')
        \<and> length (concat out') > worst_size (length text)
      \<longrightarrow> compress_body self text = encapsulate text)
   \<and> (\<exists>r. encapsulate text = Inr r \<and> length r \<le> worst_size (length text))
   \<and> worst_size 0 = 0 \<and> worst_size 1 = 2
   \<and> (2 \<le> n \<longrightarrow> worst_size n = n + 2 * (n div 255) + (if n mod 255 \<noteq> 0 then 2 else 0))"
proof -
  obtain r where r: "compress_body self text = Inr r"
    using compress_body_total by blast
  then have len: "length r \<le> worst_size (length text)"
    by (rule compress_body_length)
  have a: "(check_ascii \<longrightarrow> is_ascii text) \<longrightarrow>
      (\<exists>r. compress self text check_ascii = Inr r \<and> length r \<le> worst_size (length text))"
    using r len by (cases "text = []") (auto simp: compress_def)
  have b: "(check_ascii \<longrightarrow> is_ascii text) \<longrightarrow>
      (\<exists>r. SmazMultilang_compress self text check_ascii = Inr r
           \<and> length r \<le> worst_size (length text))"
    using r len
    by (cases "text = []") (auto simp: SmazMultilang_compress_def check_all_ascii_is_ascii)
  have c: "compress_loop (self_lookup self) text 0 [] [] = Inr (v, out)
        \<and> flush_verbatim v out = Inr (v', out')
        \<and> length (concat out') > worst_size (length text)
      \<longrightarrow> compress_body self text = encapsulate text"
    by (simp add: compress_body_def Let_def)
  obtain e where e: "encapsulate text = Inr e"
    using encapsulate_decodes[of "text" "[]"] by blast
  then have d: "\<exists>r. encapsulate text = Inr r \<and> length r \<le> worst_size (length text)"
    by (simp add: encapsulate_length)
  have f: "worst_size 0 = 0 \<and> worst_size 1 = 2
     \<and> (2 \<le> n \<longrightarrow> worst_size n = n + 2 * (n div 255) + (if n mod 255 \<noteq> 0 then 2 else 0))"
    by (simp add: worst_size_def Let_def)
  from a b c d f show ?thesis
    by blast
qed

theorem bounded_expansion_witness:
  "is_ascii [88, 101, 88, 101, 88, 101]
   \<and> compress_loop [[101] \<mapsto> [0]] [88, 101, 88, 101, 88, 101] 0 [] []
        = Inr ([], [[254, 88], [0], [254, 88], [0], [254, 88], [0]])
   \<and> flush_verbatim [] [[254, 88], [0], [254, 88], [0], [254, 88], [0]]
        = Inr ([], [[254, 88], [0], [254, 88], [0], [254, 88], [0]])
   \<and> length (concat [[254, 88], [0], [254, 88], [0], [254, 88], [0::nat]])
        > worst_size (length [88, 101, 88, 101, 88, 101::nat])
   \<and> (2::nat) \<le> 6
   \<and> worst_size 6 = 8
   \<and> encapsulate [88, 101, 88, 101, 88, 101] = Inr [255, 5, 88, 101, 88, 101, 88, 101]
   \<and> compress \<lparr>DECODE = [[101]], self_lookup = [[101] \<mapsto> [0]]\<rparr>
         [88, 101, 88, 101, 88, 101] True = Inr [255, 5, 88, 101, 88, 101, 88, 101]"
proof -
  have h1: "is_ascii [88, 101, 88, 101, 88, 101]"
    by simp
  have h2: "compress_loop [[101] \<mapsto> [0]] [88, 101, 88, 101, 88, 101] 0 [] []
        = Inr ([], [[254, 88], [0], [254, 88], [0], [254, 88], [0]])"
    by (simp add: compress_loop.simps flush_verbatim_def chr_def slice_def Let_def
        find_match_numeral)
  have h3: "flush_verbatim [] [[254, 88], [0], [254, 88], [0], [254, 88], [0]]
        = Inr ([], [[254, 88], [0], [254, 88], [0], [254, 88], [0]])"
    by (simp add: flush_verbatim_def)
  have h4: "length (concat [[254, 88], [0], [254, 88], [0], [254, 88], [0::nat]])
        > worst_size (length [88, 101, 88, 101, 88, 101::nat])"
    by (simp add: worst_size_def)
  have e: "encapsulate [88, 101, 88, 101, 88, 101] = Inr [255, 5, 88, 101, 88, 101, 88, 101]"
    by (simp add: encapsulate_def encapsulate_loop.simps slice_def chr_def Let_def)
  from bounded_expansion[of True "[88, 101, 88, 101, 88, 101]"
      "\<lparr>DECODE = [[101]], self_lookup = [[101] \<mapsto> [0]]\<rparr>"
      "[]" "[[254, 88], [0], [254, 88], [0], [254, 88], [0]]"
      "[]" "[[254, 88], [0], [254, 88], [0], [254, 88], [0]]" 6] h1 h2 h3 h4 e
  show ?thesis
    by (simp add: compress_def)
qed


text \<open>
  C3. Malformed and truncated streams. After any prefix that decodes, each of the following
  makes \<open>decompress\<close> raise and return nothing: a byte below 254 that is not an index of
  \<open>DECODE\<close>; an escape byte (254, or 255 and above) that is the last byte of the stream; a run
  header whose length byte claims more raw bytes than are left, as in the stream
  \<open>[255, 10]\<close>. What reaches the caller is always the \<open>ValueError\<close> raised by the handler,
  whose message holds either the caught \<open>IndexError\<close> or the caught overflow
  \<open>ValueError\<close>; an \<open>IndexError\<close> itself never does.
\<close>

theorem decompress_malformed:
  assumes "decompress self pre = Inr s"
  shows "(ch < 254 \<and> length (DECODE self) \<le> ch \<longrightarrow>
            decompress self (pre @ ch # rest)
              = Inl (ValueError (Error_de_descompresion IndexError)))
       \<and> (254 \<le> ch \<longrightarrow>
            decompress self (pre @ [ch]) = Inl (ValueError (Error_de_descompresion IndexError)))
       \<and> (255 \<le> ch \<and> length rest < next_byte + 1 \<longrightarrow>
            decompress self (pre @ ch # next_byte # rest)
              = Inl (ValueError (Error_de_descompresion (ValueError Desbordamiento_de_buffer))))
       \<and> decompress self [255, 10]
              = Inl (ValueError (Error_de_descompresion (ValueError Desbordamiento_de_buffer)))
       \<and> (\<forall>e. decompress self c = Inl e \<longrightarrow>
              e = ValueError (Error_de_descompresion IndexError)
              \<or> e = ValueError (Error_de_descompresion (ValueError Desbordamiento_de_buffer)))"
proof (intro conjI impI allI)
  assume "ch < 254 \<and> length (DECODE self) \<le> ch"
  then have "decode_rest (DECODE self) (ch # rest) = Inl IndexError"
    by simp
  from decompress_after_prefix[OF assms this]
  show "decompress self (pre @ ch # rest) = Inl (ValueError (Error_de_descompresion IndexError))" .
next
  assume "254 \<le> ch"
  then have "decode_rest (DECODE self) [ch] = Inl IndexError"
    by simp
  from decompress_after_prefix[OF assms this]
  show "decompress self (pre @ [ch]) = Inl (ValueError (Error_de_descompresion IndexError))" .
next
  assume "255 \<le> ch \<and> length rest < next_byte + 1"
  then have "decode_rest (DECODE self) (ch # next_byte # rest)
               = Inl (ValueError Desbordamiento_de_buffer)"
    by simp
  from decompress_after_prefix[OF assms this]
  show "decompress self (pre @ ch # next_byte # rest)
          = Inl (ValueError (Error_de_descompresion (ValueError Desbordamiento_de_buffer)))" .
next
  show "decompress self [255, 10]
          = Inl (ValueError (Error_de_descompresion (ValueError Desbordamiento_de_buffer)))"
    by (simp add: decompress_decode_rest)
next
  fix e
  assume e: "decompress self c = Inl e"
  have "decode_rest D c = Inl x \<Longrightarrow> x = IndexError \<or> x = ValueError Desbordamiento_de_buffer"
    for D x
    by (induction D c rule: decode_rest.induct)
       (auto split: if_splits sum.splits list.splits)
  with e show "e = ValueError (Error_de_descompresion IndexError)
      \<or> e = ValueError (Error_de_descompresion (ValueError Desbordamiento_de_buffer))"
    by (auto simp: decompress_decode_rest split: sum.splits)
qed

theorem decompress_malformed_witness:
  "decompress \<lparr>DECODE = [[101]], self_lookup = [[101] \<mapsto> [0]]\<rparr> [0, 254, 88] = Inr [101, 88]
   \<and> (7::nat) < 254 \<and> length (DECODE \<lparr>DECODE = [[101]], self_lookup = [[101] \<mapsto> [0]]\<rparr>) \<le> 7
   \<and> decompress \<lparr>DECODE = [[101]], self_lookup = [[101] \<mapsto> [0]]\<rparr> ([0, 254, 88] @ [7, 0])
         = Inl (ValueError (Error_de_descompresion IndexError))
   \<and> decompress \<lparr>DECODE = [[101]], self_lookup = [[101] \<mapsto> [0]]\<rparr> ([0, 254, 88] @ [254])
         = Inl (ValueError (Error_de_descompresion IndexError))
   \<and> (255::nat) \<le> 255 \<and> length [65, 66::nat] < 10 + 1
   \<and> decompress \<lparr>DECODE = [[101]], self_lookup = [[101] \<mapsto> [0]]\<rparr>
         ([0, 254, 88] @ [255, 10, 65, 66])
         = Inl (ValueError (Error_de_descompresion (ValueError Desbordamiento_de_buffer)))
   \<and> decompress \<lparr>DECODE = [[101]], self_lookup = [[101] \<mapsto> [0]]\<rparr> [3]
         = Inl (ValueError (Error_de_descompresion IndexError))"
proof -
  have p: "decompress \<lparr>DECODE = [[101]], self_lookup = [[101] \<mapsto> [0]]\<rparr> [0, 254, 88]
             = Inr [101, 88]"
    by (simp add: decompress_def decompress_loop.simps Let_def)
  have l: "decompress \<lparr>DECODE = [[101]], self_lookup = [[101] \<mapsto> [0]]\<rparr> [3]
             = Inl (ValueError (Error_de_descompresion IndexError))"
    by (simp add: decompress_def decompress_loop.simps Let_def)
  from decompress_malformed[OF p, where ch = 7 and rest = "[0]" and c = "[3]"]
    decompress_malformed[OF p, where ch = 254 and c = "[3]"]
    decompress_malformed[OF p, where ch = 255 and rest = "[65, 66]" and next_byte = 10
      and c = "[3]"] p l
  show ?thesis
    by simp
qed

text \<open>
  C4. The greedy window. At a position, the search tries the lengths from the smaller of 7
  and the number of characters left down to 1, and stops at the first slice that is a key of
  the reverse table: the length it returns is between 1 and 7, the slice of that length is a
  key, and no longer slice within the window is. When it finds nothing, no slice of length
  1 to 7 there is a key. The loop takes the match found: it flushes the buffer, appends the
  code and moves on by the matched length. For an instance built by either constructor
  (\<open>Smaz\<close> from a table of at most 254 entries) the text has exactly one greedy reading
  \<open>ts\<close>, in which every index stands for the longest key in the window at its position
  and every raw character stands where no key starts; \<open>compress\<close> returns the
  serialisation of \<open>ts\<close>, unless that is longer than the worst-case size, in which case it
  returns the encapsulated text. Whichever it returns is the serialisation of exactly one
  sequence of well-formed units, which is what \<open>decompress\<close> reads back, and every index
  in it names an entry of at most 7 characters: an entry longer than that is never emitted,
  whatever the text.
\<close>

theorem greedy_window:
  "(find_match lk text pos (min 7 (length text - pos)) = (Some code, best_len) \<longrightarrow>
      1 \<le> best_len \<and> best_len \<le> 7 \<and> best_len \<le> length text - pos
      \<and> lk (slice text pos (pos + best_len)) = Some code
      \<and> (\<forall>k. best_len < k \<and> k \<le> min 7 (length text - pos)
             \<longrightarrow> lk (slice text pos (pos + k)) = None))
   \<and> (find_match lk text pos (min 7 (length text - pos)) = (None, best_len) \<longrightarrow>
      best_len = 0
      \<and> (\<forall>k. 1 \<le> k \<and> k \<le> min 7 (length text - pos) \<longrightarrow> lk (slice text pos (pos + k)) = None))
   \<and> (pos < length text
        \<and> find_match lk text pos (min 7 (length text - pos)) = (Some code, best_len)
        \<and> code \<noteq> [] \<and> flush_verbatim verbatim output = Inr (v, out) \<longrightarrow>
      compress_loop lk text pos verbatim output
        = compress_loop lk text (pos + best_len) v (out @ [code]))
   \<and> (((Smaz_init D = Inr self \<and> length D \<le> 254) \<or> SmazMultilang_init D = Inr self)
        \<and> (check_ascii \<longrightarrow> is_ascii text) \<longrightarrow>
        (\<exists>ts. greedy_from (self_lookup self) D text 0 ts \<and> list_all (token_ok D) ts
           \<and> (\<forall>ts'. greedy_from (self_lookup self) D text 0 ts' \<longrightarrow> ts' = ts)
           \<and> compress self text check_ascii =
               (if length (concat (map serialize ts)) > worst_size (length text)
                then encapsulate text else Inr (concat (map serialize ts)))
           \<and> SmazMultilang_compress self text check_ascii = compress self text check_ascii)
        \<and> (\<exists>r ts. compress self text check_ascii = Inr r \<and> r = concat (map serialize ts)
           \<and> list_all (token_ok D) ts
           \<and> (\<forall>ts'. list_all (token_ok D) ts' \<and> r = concat (map serialize ts') \<longrightarrow> ts' = ts)
           \<and> decompress self r = Inr (concat (map (expand D) ts))
           \<and> concat (map (expand D) ts) = text
           \<and> (\<forall>i. Entry i \<in> set ts \<longrightarrow> i < length D \<and> length (D ! i) \<le> 7)))"
proof (intro conjI impI)
  assume fm: "find_match lk text pos (min 7 (length text - pos)) = (Some code, best_len)"
  from find_match_Some[OF fm]
  show "1 \<le> best_len" "best_len \<le> 7" "best_len \<le> length text - pos"
    "lk (slice text pos (pos + best_len)) = Some code"
    "\<forall>k. best_len < k \<and> k \<le> min 7 (length text - pos) \<longrightarrow> lk (slice text pos (pos + k)) = None"
    by auto
next
  assume fm: "find_match lk text pos (min 7 (length text - pos)) = (None, best_len)"
  from find_match_None[OF fm]
  show "best_len = 0"
    "\<forall>k. 1 \<le> k \<and> k \<le> min 7 (length text - pos) \<longrightarrow> lk (slice text pos (pos + k)) = None"
    by auto
next
  assume "pos < length text
        \<and> find_match lk text pos (min 7 (length text - pos)) = (Some code, best_len)
        \<and> code \<noteq> [] \<and> flush_verbatim verbatim output = Inr (v, out)"
  then show "compress_loop lk text pos verbatim output
        = compress_loop lk text (pos + best_len) v (out @ [code])"
    by (simp add: compress_loop_match_step)
next
  assume a: "((Smaz_init D = Inr self \<and> length D \<le> 254) \<or> SmazMultilang_init D = Inr self)
        \<and> (check_ascii \<longrightarrow> is_ascii text)"
  then have i: "(Smaz_init D = Inr self \<and> length D \<le> 254) \<or> SmazMultilang_init D = Inr self"
    and acc: "check_ascii \<longrightarrow> is_ascii text"
    by blast+
  then show "\<exists>ts. greedy_from (self_lookup self) D text 0 ts \<and> list_all (token_ok D) ts
           \<and> (\<forall>ts'. greedy_from (self_lookup self) D text 0 ts' \<longrightarrow> ts' = ts)
           \<and> compress self text check_ascii =
               (if length (concat (map serialize ts)) > worst_size (length text)
                then encapsulate text else Inr (concat (map serialize ts)))
           \<and> SmazMultilang_compress self text check_ascii = compress self text check_ascii"
    by (rule compress_greedy_stream)
  from compress_stream_reading[OF i acc] obtain r ts where
    r: "compress self text check_ascii = Inr r" "r = concat (map serialize ts)"
    and all: "list_all (token_ok D) ts"
    and uniq: "\<forall>ts'. list_all (token_ok D) ts' \<and> r = concat (map serialize ts') \<longrightarrow> ts' = ts"
    and rd: "decompress self r = Inr (concat (map (expand D) ts))"
    and ex: "concat (map (expand D) ts) = text"
    by blast
  have short: "\<forall>i. Entry i \<in> set ts \<longrightarrow> i < length D \<and> length (D ! i) \<le> 7"
  proof (intro allI impI)
    fix i assume "Entry i \<in> set ts"
    with all have "token_ok D (Entry i)"
      unfolding list_all_iff by blast
    then show "i < length D \<and> length (D ! i) \<le> 7"
      by simp
  qed
  from r all uniq rd ex short
  show "\<exists>r ts. compress self text check_ascii = Inr r \<and> r = concat (map serialize ts)
           \<and> list_all (token_ok D) ts
           \<and> (\<forall>ts'. list_all (token_ok D) ts' \<and> r = concat (map serialize ts') \<longrightarrow> ts' = ts)
           \<and> decompress self r = Inr (concat (map (expand D) ts))
           \<and> concat (map (expand D) ts) = text
           \<and> (\<forall>i. Entry i \<in> set ts \<longrightarrow> i < length D \<and> length (D ! i) \<le> 7)"
    by blast
qed

theorem greedy_window_witness:
  "is_ascii [1, 2, 3, 4]
   \<and> find_match [[1, 2] \<mapsto> [0], [1, 2, 3] \<mapsto> [1]] [1, 2, 3, 4] 0 (min 7 (length [1, 2, 3, 4::nat] - 0))
     = (Some [1], 3)
   \<and> find_match [[1, 2] \<mapsto> [0], [1, 2, 3] \<mapsto> [1]] [1, 2, 3, 4] 3 (min 7 (length [1, 2, 3, 4::nat] - 3))
     = (None, 0)
   \<and> (0::nat) < length [1, 2, 3, 4::nat] \<and> [1::nat] \<noteq> []
   \<and> flush_verbatim [] [] = Inr ([], [])
   \<and> compress_loop [[1, 2] \<mapsto> [0], [1, 2, 3] \<mapsto> [1]] [1, 2, 3, 4] 0 [] []
       = compress_loop [[1, 2] \<mapsto> [0], [1, 2, 3] \<mapsto> [1]] [1, 2, 3, 4] (0 + 3) [] ([] @ [[1]])
   \<and> SmazMultilang_init [[1, 2], [1, 2, 3]]
       = Inr \<lparr>DECODE = [[1, 2], [1, 2, 3]], self_lookup = [[1, 2] \<mapsto> [0], [1, 2, 3] \<mapsto> [1]]\<rparr>
   \<and> greedy_from [[1, 2] \<mapsto> [0], [1, 2, 3] \<mapsto> [1]] [[1, 2], [1, 2, 3]] [1, 2, 3, 4] 0
        [Entry 1, Literal 4]
   \<and> list_all (token_ok [[1, 2], [1, 2, 3]]) [Entry 1, Literal 4]
   \<and> compress \<lparr>DECODE = [[1, 2], [1, 2, 3]], self_lookup = [[1, 2] \<mapsto> [0], [1, 2, 3] \<mapsto> [1]]\<rparr>
         [1, 2, 3, 4] True
       = Inr (concat (map serialize [Entry 1, Literal 4]))
   \<and> decompress \<lparr>DECODE = [[1, 2], [1, 2, 3]], self_lookup = [[1, 2] \<mapsto> [0], [1, 2, 3] \<mapsto> [1]]\<rparr>
         [1, 254, 4]
       = Inr [1, 2, 3, 4]"
proof -
  let ?lk = "[[1, 2] \<mapsto> [0], [1, 2, 3] \<mapsto> [1::nat]] :: str \<rightharpoonup> str"
  let ?D = "[[1, 2], [1, 2, 3::nat]]"
  let ?self = "\<lparr>DECODE = ?D, self_lookup = ?lk\<rparr>"
  have f1: "find_match ?lk [1, 2, 3, 4] 0 (min 7 (length [1, 2, 3, 4::nat] - 0)) = (Some [1], 3)"
    by (simp add: find_match_numeral slice_def)
  have f2: "find_match ?lk [1, 2, 3, 4] 3 (min 7 (length [1, 2, 3, 4::nat] - 3)) = (None, 0)"
    by (simp add: find_match_numeral slice_def)
  have fl: "flush_verbatim [] [] = Inr ([], [])"
    by (simp add: flush_verbatim_def)
  have i: "SmazMultilang_init ?D = Inr ?self"
    by (simp add: SmazMultilang_init_def SmazMultilang_create_lookup_def chr_def)
  have g: "greedy_from ?lk ?D [1, 2, 3, 4] 0 [Entry 1, Literal 4]"
    by (simp add: no_match_at_def slice_def)
  have c: "compress ?self [1, 2, 3, 4] True = Inr (concat (map serialize [Entry 1, Literal 4]))"
    by (simp add: compress_def compress_body_def compress_loop.simps flush_verbatim_def chr_def
        slice_def worst_size_def Let_def find_match_numeral)
  have d: "decompress ?self [1, 254, 4] = Inr [1, 2, 3, 4]"
    by (simp add: decompress_def decompress_loop.simps Let_def)
  from greedy_window[of ?lk "[1, 2, 3, 4]" 0 "[1]" 3 "[]" "[]" "[]" "[]" ?D ?self True]
    greedy_window[of ?lk "[1, 2, 3, 4]" 3 "[1]" 0 "[]" "[]" "[]" "[]" ?D ?self True]
    f1 f2 fl i g c d
  show ?thesis
    by simp
qed

text \<open>
  C5. The flush rule. \<open>_flush_verbatim\<close> leaves an empty buffer and the output as they
  are; for a buffer of one character \<open>b\<close> it appends the piece \<open>[254, b]\<close>; for a buffer of
  2 to 255 characters it appends \<open>[255, length - 1]\<close> and then the characters; in each case
  the buffer it returns is empty. In the loop, at a position with no match, a buffer of 254
  characters takes the character, is flushed at once as a run of 255 and is left empty; a
  shorter buffer only takes the character. So the buffer is shorter than 255 whenever the
  loop is entered and when it is left. For an instance built by either constructor, the token
  stream is the serialisation of the one greedy reading of the text, in which a run holds 2
  to 255 characters and is cut only at 255 characters, at a match or at the end of the text;
  what \<open>compress\<close> returns is the serialisation of exactly one sequence of well-formed units,
  the one \<open>decompress\<close> reads back, and every run in it holds 2 to 255 raw characters. A
  text of 300 characters in which no slice of length 1 to 7 is a key of the reverse table is
  returned as a run of its first 255 characters followed by a run of the other 45.
\<close>

theorem flush_rule:
  "flush_verbatim [] output = Inr ([], output)
   \<and> flush_verbatim [b] output = Inr ([], output @ [[254, b]])
   \<and> (2 \<le> length buffer \<and> length buffer \<le> 255 \<longrightarrow>
        flush_verbatim buffer output = Inr ([], output @ [[255, length buffer - 1], buffer]))
   \<and> (pos < length text
        \<and> \<not> truthy (fst (find_match lk text pos (min 7 (length text - pos))))
        \<and> length verbatim = 254 \<longrightarrow>
        compress_loop lk text pos verbatim output
          = compress_loop lk text (pos + 1) [] (output @ [[255, 254], verbatim @ [text ! pos]]))
   \<and> (pos < length text
        \<and> \<not> truthy (fst (find_match lk text pos (min 7 (length text - pos))))
        \<and> length verbatim \<noteq> 254 \<longrightarrow>
        compress_loop lk text pos verbatim output
          = compress_loop lk text (pos + 1) (verbatim @ [text ! pos]) output)
   \<and> (length verbatim < 255 \<longrightarrow>
        (\<exists>v' o'. compress_loop lk text pos verbatim output = Inr (v', o') \<and> length v' < 255))
   \<and> (((Smaz_init D = Inr self \<and> length D \<le> 254) \<or> SmazMultilang_init D = Inr self)
        \<and> (check_ascii \<longrightarrow> is_ascii text) \<longrightarrow>
        (\<exists>ts. greedy_from (self_lookup self) D text 0 ts \<and> list_all (token_ok D) ts
           \<and> (\<forall>ts'. greedy_from (self_lookup self) D text 0 ts' \<longrightarrow> ts' = ts)
           \<and> compress self text check_ascii =
               (if length (concat (map serialize ts)) > worst_size (length text)
                then encapsulate text else Inr (concat (map serialize ts))))
        \<and> (\<exists>r ts. compress self text check_ascii = Inr r \<and> r = concat (map serialize ts)
           \<and> list_all (token_ok D) ts
           \<and> (\<forall>ts'. list_all (token_ok D) ts' \<and> r = concat (map serialize ts') \<longrightarrow> ts' = ts)
           \<and> decompress self r = Inr (concat (map (expand D) ts))
           \<and> concat (map (expand D) ts) = text
           \<and> (\<forall>raw. Run raw \<in> set ts \<longrightarrow> 2 \<le> length raw \<and> length raw \<le> 255)))
   \<and> (length text = 300 \<and> (check_ascii \<longrightarrow> is_ascii text)
        \<and> (\<forall>p k. p < length text \<and> 1 \<le> k \<and> k \<le> min 7 (length text - p)
               \<longrightarrow> self_lookup self (slice text p (p + k)) = None) \<longrightarrow>
        compress self text check_ascii
          = Inr (concat (map serialize [Run (take 255 text), Run (drop 255 text)])))"
proof (intro conjI impI)
  show "flush_verbatim [] output = Inr ([], output)"
    by (rule flush_verbatim_Nil)
  show "flush_verbatim [b] output = Inr ([], output @ [[254, b]])"
    by (rule flush_verbatim_single)
next
  assume "2 \<le> length buffer \<and> length buffer \<le> 255"
  then show "flush_verbatim buffer output = Inr ([], output @ [[255, length buffer - 1], buffer])"
    by (simp add: flush_verbatim_run)
next
  assume a: "pos < length text
        \<and> \<not> truthy (fst (find_match lk text pos (min 7 (length text - pos))))
        \<and> length verbatim = 254"
  then have "flush_verbatim (verbatim @ [text ! pos]) output
               = Inr ([], output @ [[255, 254], verbatim @ [text ! pos]])"
    using flush_verbatim_run[of "verbatim @ [text ! pos]" "output"] by simp
  with a compress_loop_nomatch_step[of pos "text" lk verbatim "output"]
  show "compress_loop lk text pos verbatim output
          = compress_loop lk text (pos + 1) [] (output @ [[255, 254], verbatim @ [text ! pos]])"
    by simp
next
  assume a: "pos < length text
        \<and> \<not> truthy (fst (find_match lk text pos (min 7 (length text - pos))))
        \<and> length verbatim \<noteq> 254"
  with compress_loop_nomatch_step[of pos "text" lk verbatim "output"]
  show "compress_loop lk text pos verbatim output
          = compress_loop lk text (pos + 1) (verbatim @ [text ! pos]) output"
    by simp
next
  assume "length verbatim < 255"
  then show "\<exists>v' o'. compress_loop lk text pos verbatim output = Inr (v', o') \<and> length v' < 255"
    by (rule compress_loop_total)
next
  assume a: "((Smaz_init D = Inr self \<and> length D \<le> 254) \<or> SmazMultilang_init D = Inr self)
        \<and> (check_ascii \<longrightarrow> is_ascii text)"
  then have i: "(Smaz_init D = Inr self \<and> length D \<le> 254) \<or> SmazMultilang_init D = Inr self"
    and acc: "check_ascii \<longrightarrow> is_ascii text"
    by blast+
  from compress_greedy_stream[OF i acc]
  show "\<exists>ts. greedy_from (self_lookup self) D text 0 ts \<and> list_all (token_ok D) ts
           \<and> (\<forall>ts'. greedy_from (self_lookup self) D text 0 ts' \<longrightarrow> ts' = ts)
           \<and> compress self text check_ascii =
               (if length (concat (map serialize ts)) > worst_size (length text)
                then encapsulate text else Inr (concat (map serialize ts)))"
    by blast
  from compress_stream_reading[OF i acc] obtain r ts where
    r: "compress self text check_ascii = Inr r" "r = concat (map serialize ts)"
    and all: "list_all (token_ok D) ts"
    and uniq: "\<forall>ts'. list_all (token_ok D) ts' \<and> r = concat (map serialize ts') \<longrightarrow> ts' = ts"
    and rd: "decompress self r = Inr (concat (map (expand D) ts))"
    and ex: "concat (map (expand D) ts) = text"
    by blast
  have runs: "\<forall>raw. Run raw \<in> set ts \<longrightarrow> 2 \<le> length raw \<and> length raw \<le> 255"
  proof (intro allI impI)
    fix raw assume "Run raw \<in> set ts"
    with all have "token_ok D (Run raw)"
      unfolding list_all_iff by blast
    then show "2 \<le> length raw \<and> length raw \<le> 255"
      by simp
  qed
  from r all uniq rd ex runs
  show "\<exists>r ts. compress self text check_ascii = Inr r \<and> r = concat (map serialize ts)
           \<and> list_all (token_ok D) ts
           \<and> (\<forall>ts'. list_all (token_ok D) ts' \<and> r = concat (map serialize ts') \<longrightarrow> ts' = ts)
           \<and> decompress self r = Inr (concat (map (expand D) ts))
           \<and> concat (map (expand D) ts) = text
           \<and> (\<forall>raw. Run raw \<in> set ts \<longrightarrow> 2 \<le> length raw \<and> length raw \<le> 255)"
    by blast
next
  assume a: "length text = 300 \<and> (check_ascii \<longrightarrow> is_ascii text)
        \<and> (\<forall>p k. p < length text \<and> 1 \<le> k \<and> k \<le> min 7 (length text - p)
               \<longrightarrow> self_lookup self (slice text p (p + k)) = None)"
  then have H: "\<forall>p<length text. no_match_at (self_lookup self) text p"
    unfolding no_match_at_iff by blast
  from a have len: "length text = 300" and acc: "check_ascii \<longrightarrow> is_ascii text"
    by blast+
  from compress_body_matchless_300[OF H len] len
  show "compress self text check_ascii
          = Inr (concat (map serialize [Run (take 255 text), Run (drop 255 text)]))"
    by (simp add: compress_checked_body[OF acc])
qed

theorem flush_rule_witness:
  "(2::nat) \<le> length [1, 2::nat] \<and> length [1, 2::nat] \<le> 255
   \<and> flush_verbatim [1, 2] [[0]] = Inr ([], [[0], [255, 1], [1, 2]])
   \<and> is_ascii [88, 89, 101, 101, 101] \<and> is_ascii (replicate 300 88)
   \<and> (0::nat) < length [88, 89, 101, 101, 101::nat]
   \<and> \<not> truthy (fst (find_match [[101] \<mapsto> [0]] [88, 89, 101, 101, 101] 0
                      (min 7 (length [88, 89, 101, 101, 101::nat] - 0))))
   \<and> length ([]::nat list) \<noteq> 254 \<and> length ([]::nat list) < 255
   \<and> SmazMultilang_init [[101]] = Inr \<lparr>DECODE = [[101]], self_lookup = [[101] \<mapsto> [0]]\<rparr>
   \<and> greedy_from [[101] \<mapsto> [0]] [[101]] [88, 89, 101, 101, 101] 0
        [Run [88, 89], Entry 0, Entry 0, Entry 0]
   \<and> compress \<lparr>DECODE = [[101]], self_lookup = [[101] \<mapsto> [0]]\<rparr> [88, 89, 101, 101, 101] True
        = Inr (concat (map serialize [Run [88, 89], Entry 0, Entry 0, Entry 0]))
   \<and> SmazMultilang_init [[88, 89]] = Inr \<lparr>DECODE = [[88, 89]], self_lookup = [[88, 89] \<mapsto> [0]]\<rparr>
   \<and> length (replicate 300 (88::nat)) = 300
   \<and> compress \<lparr>DECODE = [[88, 89]], self_lookup = [[88, 89] \<mapsto> [0]]\<rparr> (replicate 300 88) True
        = Inr (255 # 254 # replicate 255 88 @ 255 # 44 # replicate 45 88)"
proof -
  let ?self = "\<lparr>DECODE = [[101]], self_lookup = [[101] \<mapsto> [0]]\<rparr>"
  let ?self2 = "\<lparr>DECODE = [[88, 89]], self_lookup = [[88, 89] \<mapsto> [0]]\<rparr>"
  have i: "SmazMultilang_init [[101]] = Inr ?self"
    by (simp add: SmazMultilang_init_def SmazMultilang_create_lookup_def chr_def)
  have i2: "SmazMultilang_init [[88, 89]] = Inr ?self2"
    by (simp add: SmazMultilang_init_def SmazMultilang_create_lookup_def chr_def)
  have n: "\<not> truthy (fst (find_match [[101] \<mapsto> [0]] [88, 89, 101, 101, 101] 0
                      (min 7 (length [88, 89, 101, 101, 101::nat] - 0))))"
    by (simp add: find_match_numeral slice_def)
  have g: "greedy_from [[101] \<mapsto> [0]] [[101]] [88, 89, 101, 101, 101] 0
        [Run [88, 89], Entry 0, Entry 0, Entry 0]"
    by (simp add: no_match_at_def slice_def)
  have c: "compress ?self [88, 89, 101, 101, 101] True
        = Inr (concat (map serialize [Run [88, 89], Entry 0, Entry 0, Entry 0]))"
    by (simp add: compress_def compress_body_def compress_loop.simps flush_verbatim_def chr_def
        slice_def worst_size_def Let_def find_match_numeral)
  have r: "replicate m (88::nat) \<noteq> [88, 89]" for m
  proof
    assume "replicate m (88::nat) = [88, 89]"
    then have "set (replicate m (88::nat)) = set [88, 89]" by simp
    then show False by (cases "m = 0") auto
  qed
  have ia: "is_ascii (replicate 300 88)"
    by (simp add: is_ascii_iff)
  have h: "\<forall>p k. p < length (replicate 300 (88::nat)) \<and> 1 \<le> k
             \<and> k \<le> min 7 (length (replicate 300 (88::nat)) - p)
             \<longrightarrow> self_lookup ?self2 (slice (replicate 300 88) p (p + k)) = None"
    using r by (simp add: slice_def)
  from flush_rule[of "[[0]]" 7 "[1, 2]" 0 "[88, 89, 101, 101, 101]" "[[101] \<mapsto> [0]]" "[]"
      "[[101]]" ?self True]
    flush_rule[of "[[0]]" 7 "[1, 2]" 0 "replicate 300 88" "[[101] \<mapsto> [0]]" "[]"
      "[[88, 89]]" ?self2 True]
    i i2 n g c h ia
  show ?thesis
    by simp
qed

text \<open>
  C6. The range of dictionary indices. The code treats 254 and 255 alone as escapes: byte
  253 is an ordinary index. With the shipped table of \<open>smaz.py\<close>, whose entry 253 is
  ".com", compressing ".com" gives the one byte 253 and decompressing the byte 253 gives
  ".com". What holds is this. After any prefix that decodes, a byte below 254 that is an
  index of \<open>DECODE\<close> is replaced by that entry; byte 254 copies the next character and a
  byte of 255 or more copies the run that follows, the table playing no part. Every code of
  the reverse table is one character below 254 that indexes the entry equal to its key, and
  every dictionary index in the stream that \<open>compress\<close> returns is below 254 (for an
  instance built by \<open>SmazMultilang.__init__\<close> from any table, or by \<open>Smaz.__init__\<close> from
  a table of at most 254 entries).
\<close>

theorem dictionary_index_range:
  "(decompress self pre = Inr s \<and> ch < 254 \<and> ch < length (DECODE self) \<longrightarrow>
      decompress self (pre @ [ch]) = Inr (s @ DECODE self ! ch))
   \<and> (decompress self pre = Inr s \<longrightarrow> decompress self (pre @ [254, b]) = Inr (s @ [b]))
   \<and> (decompress self pre = Inr s \<and> 255 \<le> esc \<and> length raw = n + 1 \<longrightarrow>
      decompress self (pre @ esc # n # raw) = Inr (s @ raw))
   \<and> ((Smaz_init D = Inr self \<and> length D \<le> 254) \<or> SmazMultilang_init D = Inr self \<longrightarrow>
        (\<forall>key code. self_lookup self key = Some code \<longrightarrow>
           (\<exists>i. code = [i] \<and> i < 254 \<and> i < length D \<and> D ! i = key))
        \<and> (\<exists>r ts. compress self text False = Inr r \<and> r = concat (map serialize ts)
              \<and> (\<forall>i. Entry i \<in> set ts \<longrightarrow> i < 254 \<and> i < length D)))"
proof (intro conjI impI)
  assume "decompress self pre = Inr s \<and> ch < 254 \<and> ch < length (DECODE self)"
  then show "decompress self (pre @ [ch]) = Inr (s @ DECODE self ! ch)"
    using decompress_append_ok[of self pre s "[ch]" "[DECODE self ! ch]"] by simp
next
  assume "decompress self pre = Inr s"
  then show "decompress self (pre @ [254, b]) = Inr (s @ [b])"
    using decompress_append_ok[of self pre s "[254, b]" "[[b]]"] by simp
next
  assume "decompress self pre = Inr s \<and> 255 \<le> esc \<and> length raw = n + 1"
  then show "decompress self (pre @ esc # n # raw) = Inr (s @ raw)"
    using decompress_append_ok[of self pre s "esc # n # raw" "[raw]"] by simp
next
  assume i: "(Smaz_init D = Inr self \<and> length D \<le> 254) \<or> SmazMultilang_init D = Inr self"
  then have ok: "lookup_ok D (self_lookup self)"
    using init_lookup_ok by blast
  then show "\<forall>key code. self_lookup self key = Some code \<longrightarrow>
           (\<exists>i. code = [i] \<and> i < 254 \<and> i < length D \<and> D ! i = key)"
    by (simp add: lookup_ok_def)
  show "\<exists>r ts. compress self text False = Inr r \<and> r = concat (map serialize ts)
              \<and> (\<forall>i. Entry i \<in> set ts \<longrightarrow> i < 254 \<and> i < length D)"
  proof (cases "text = []")
    case True
    then show ?thesis
      by (intro exI[of _ "[]"]) (simp add: compress_def)
  next
    case False
    from compress_body_tokens[OF ok, of "text"] obtain r ts where
      r: "compress_body self text = Inr r" "r = concat (map serialize ts)"
      and all: "list_all (token_ok D) ts"
      by blast
    have "i < 254 \<and> i < length D" if "Entry i \<in> set ts" for i
      using all that by (auto simp: list_all_iff)
    with r False show ?thesis
      by (auto simp: compress_unchecked)
  qed
qed

theorem dictionary_index_range_witness:
  "decompress \<lparr>DECODE = [[101]], self_lookup = [[101] \<mapsto> [0]]\<rparr> [254, 88] = Inr [88]
   \<and> (0::nat) < 254 \<and> 0 < length (DECODE \<lparr>DECODE = [[101]], self_lookup = [[101] \<mapsto> [0]]\<rparr>)
   \<and> decompress \<lparr>DECODE = [[101]], self_lookup = [[101] \<mapsto> [0]]\<rparr> ([254, 88] @ [0])
       = Inr ([88] @ [101])
   \<and> decompress \<lparr>DECODE = [[101]], self_lookup = [[101] \<mapsto> [0]]\<rparr> ([254, 88] @ [254, 0])
       = Inr ([88] @ [0])
   \<and> (255::nat) \<le> 255 \<and> length [0, 254::nat] = 1 + 1
   \<and> decompress \<lparr>DECODE = [[101]], self_lookup = [[101] \<mapsto> [0]]\<rparr>
         ([254, 88] @ 255 # 1 # [0, 254])
       = Inr ([88] @ [0, 254])
   \<and> SmazMultilang_init [[101]] = Inr \<lparr>DECODE = [[101]], self_lookup = [[101] \<mapsto> [0]]\<rparr>
   \<and> compress \<lparr>DECODE = [[101]], self_lookup = [[101] \<mapsto> [0]]\<rparr> [101, 101] False
       = Inr (concat (map serialize [Entry 0, Entry 0]))"
proof -
  let ?self = "\<lparr>DECODE = [[101]], self_lookup = [[101] \<mapsto> [0]]\<rparr>"
  have p: "decompress ?self [254, 88] = Inr [88]"
    by (simp add: decompress_def decompress_loop.simps Let_def)
  have i: "SmazMultilang_init [[101]] = Inr ?self"
    by (simp add: SmazMultilang_init_def SmazMultilang_create_lookup_def chr_def)
  have c: "compress ?self [101, 101] False = Inr (concat (map serialize [Entry 0, Entry 0]))"
    by (simp add: compress_def compress_body_def compress_loop.simps flush_verbatim_def chr_def
        slice_def worst_size_def Let_def find_match_numeral)
  from dictionary_index_range[of ?self "[254, 88]" "[88]" 0 0 255 "[0, 254]" 1 "[[101]]"
      "[101, 101]"] p i c
  show ?thesis
    by simp
qed

text \<open>
  C6, the claim as first stated (253 a control code, never an index) fails at the shared
  instance of \<open>smaz.py\<close>: compressing ".com" gives the one byte 253, and decompressing the
  byte 253 gives ".com".
\<close>

theorem index_253_counterexample:
  "smaz_compress [46, 99, 111, 109] True = Inr [253]
   \<and> smaz_decompress [253] = Inr [46, 99, 111, 109]"
proof -
  obtain self where inst: "smaz_get_instance = Inr self" and D: "DECODE self = Smaz_DECODE"
    and lk: "Smaz_create_lookup Smaz_DECODE = Inr (self_lookup self)"
    using smaz_instance by blast
  have e: "Smaz_DECODE ! 253 = [46, 99, 111, 109]
      \<and> [46, 99, 111, 109] \<notin> set (drop (Suc 253) Smaz_DECODE)"
    by (simp add: Smaz_DECODE_def)
  from Smaz_create_lookup_eval[OF lk, of 253] e
  have l: "self_lookup self [46, 99, 111, 109] = Some [253]"
    by (simp add: length_Smaz_DECODE)
  have c: "compress self [46, 99, 111, 109] True = Inr [253]"
    using l
    by (simp add: compress_def compress_body_def compress_loop.simps flush_verbatim_def
        slice_def worst_size_def Let_def find_match_numeral)
  have d: "decompress self [253] = Inr [46, 99, 111, 109]"
    using D e by (simp add: decompress_decode_rest length_Smaz_DECODE)
  show ?thesis
    unfolding smaz_compress_def smaz_decompress_def inst
    by (simp add: c d)
qed

text \<open>
  C7. The ASCII check. With \<open>check_ascii\<close> on, a text that holds a character of 128 or more
  makes both \<open>compress\<close> functions raise their \<open>ValueError\<close>, so nothing is returned
  (the check stands before the loop). With \<open>check_ascii\<close> off, or with a text of
  characters below 128 only, both return a stream, for any instance.
\<close>

theorem ascii_check:
  "(check_ascii \<and> (\<exists>ch\<in>set text. ch \<ge> 128) \<longrightarrow>
      compress self text check_ascii = Inl (ValueError Solo_procesa_texto_ASCII)
      \<and> SmazMultilang_compress self text check_ascii = Inl (ValueError Solo_procesa_texto_ASCII))
   \<and> (\<not> check_ascii \<or> (\<forall>ch\<in>set text. ch < 128) \<longrightarrow>
      (\<exists>r. compress self text check_ascii = Inr r)
      \<and> (\<exists>r. SmazMultilang_compress self text check_ascii = Inr r))"
proof (intro conjI impI)
  assume a: "check_ascii \<and> (\<exists>ch\<in>set text. ch \<ge> 128)"
  then have na: "\<not> is_ascii text" and ne: "text \<noteq> []"
    by (force simp: is_ascii_iff not_less)+
  with a show "compress self text check_ascii = Inl (ValueError Solo_procesa_texto_ASCII)"
    by (simp add: compress_def)
  from a na ne
  show "SmazMultilang_compress self text check_ascii = Inl (ValueError Solo_procesa_texto_ASCII)"
    by (simp add: SmazMultilang_compress_def check_all_ascii_is_ascii)
next
  assume "\<not> check_ascii \<or> (\<forall>ch\<in>set text. ch < 128)"
  then have ok: "check_ascii \<longrightarrow> is_ascii text"
    by (auto simp: is_ascii_iff)
  obtain r where r: "compress_body self text = Inr r"
    using compress_body_total by blast
  from ok r show "\<exists>r. compress self text check_ascii = Inr r"
    by (cases "text = []") (auto simp: compress_def)
  from ok r show "\<exists>r. SmazMultilang_compress self text check_ascii = Inr r"
    by (cases "text = []") (auto simp: SmazMultilang_compress_def check_all_ascii_is_ascii)
qed

theorem ascii_check_witness:
  "(233::nat) \<in> set [99, 233] \<and> (233::nat) \<ge> 128
   \<and> compress \<lparr>DECODE = [[101]], self_lookup = [[101] \<mapsto> [0]]\<rparr> [99, 233] True
        = Inl (ValueError Solo_procesa_texto_ASCII)
   \<and> SmazMultilang_compress \<lparr>DECODE = [[101]], self_lookup = [[101] \<mapsto> [0]]\<rparr> [99, 233] True
        = Inl (ValueError Solo_procesa_texto_ASCII)
   \<and> compress \<lparr>DECODE = [[101]], self_lookup = [[101] \<mapsto> [0]]\<rparr> [99, 233] False
        = Inr [255, 1, 99, 233]
   \<and> SmazMultilang_compress \<lparr>DECODE = [[101]], self_lookup = [[101] \<mapsto> [0]]\<rparr> [99, 233] False
        = Inr [255, 1, 99, 233]"
proof -
  have m: "\<exists>ch\<in>set [99, 233::nat]. ch \<ge> 128"
    by simp
  have c: "compress_body \<lparr>DECODE = [[101]], self_lookup = [[101] \<mapsto> [0]]\<rparr> [99, 233]
             = Inr [255, 1, 99, 233]"
    by (simp add: compress_body_def compress_loop.simps flush_verbatim_def chr_def
        slice_def worst_size_def Let_def find_match_numeral)
  from ascii_check[of True "[99, 233]" "\<lparr>DECODE = [[101]], self_lookup = [[101] \<mapsto> [0]]\<rparr>"]
    ascii_check[of False "[99, 233]" "\<lparr>DECODE = [[101]], self_lookup = [[101] \<mapsto> [0]]\<rparr>"]
    m c
  show ?thesis
    by (simp add: compress_def SmazMultilang_compress_def)
qed

text \<open>
  C8. Compressing the empty string gives the empty string, in both classes and whatever
  \<open>check_ascii\<close> is, and decompressing the empty string gives the empty string.
\<close>

theorem empty_in_empty_out:
  "compress self [] check_ascii = Inr []
   \<and> SmazMultilang_compress self [] check_ascii = Inr []
   \<and> decompress self [] = Inr []"
  by (simp add: compress_def SmazMultilang_compress_def decompress_def)

text \<open>
  C9. Duplicate entries. The reverse table that \<open>SmazMultilang._create_lookup\<close> builds maps
  the text of every entry below index 254 to the largest index below 254 that holds the same
  text: a later entry overwrites an earlier one. Decompressing that index gives the same
  text back, and the round trip holds for a table with a repeated entry as for any other.
  The shipped multilingual table holds "das" at 152 and 154 and "dans" at 142 and 161; the
  reverse table of the shared instance maps them to 154 and 161.
\<close>

theorem lookup_last_wins:
  "(SmazMultilang_create_lookup D = Inr lk \<and> i < length D \<and> i < 254 \<longrightarrow>
      (\<exists>j. lk (D ! i) = Some [j] \<and> i \<le> j \<and> j < 254 \<and> j < length D \<and> D ! j = D ! i
         \<and> (\<forall>k. j < k \<and> k < 254 \<and> k < length D \<longrightarrow> D ! k \<noteq> D ! i)))
   \<and> (SmazMultilang_init D = Inr self \<and> i < length D \<and> i < 254
        \<and> self_lookup self (D ! i) = Some [j] \<longrightarrow>
      decompress self [j] = Inr (D ! i))
   \<and> (SmazMultilang_init D = Inr self \<and> i < i' \<and> i' < length D \<and> D ! i = D ! i' \<longrightarrow>
      (\<exists>r. SmazMultilang_compress self text False = Inr r \<and> decompress self r = Inr text))
   \<and> SmazMultilang_DECODE ! 152 = [100, 97, 115] \<and> SmazMultilang_DECODE ! 154 = [100, 97, 115]
   \<and> SmazMultilang_DECODE ! 142 = [100, 97, 110, 115]
   \<and> SmazMultilang_DECODE ! 161 = [100, 97, 110, 115]
   \<and> (\<exists>inst. smaz_multilang_get_instance = Inr inst
         \<and> self_lookup inst [100, 97, 115] = Some [154]
         \<and> self_lookup inst [100, 97, 110, 115] = Some [161])"
proof (intro conjI impI)
  assume "SmazMultilang_create_lookup D = Inr lk \<and> i < length D \<and> i < 254"
  then show "\<exists>j. lk (D ! i) = Some [j] \<and> i \<le> j \<and> j < 254 \<and> j < length D \<and> D ! j = D ! i
         \<and> (\<forall>k. j < k \<and> k < 254 \<and> k < length D \<longrightarrow> D ! k \<noteq> D ! i)"
    using SmazMultilang_lookup_last[of D lk i] by blast
next
  assume a: "SmazMultilang_init D = Inr self \<and> i < length D \<and> i < 254
        \<and> self_lookup self (D ! i) = Some [j]"
  then have f: "DECODE self = D" "SmazMultilang_create_lookup D = Inr (self_lookup self)"
    using SmazMultilang_init_fields[of D self] by auto
  from SmazMultilang_lookup_last[OF f(2), of i] a
  have "j < 254" "j < length D" "D ! j = D ! i"
    by auto
  then show "decompress self [j] = Inr (D ! i)"
    using f(1) by (simp add: decompress_decode_rest)
next
  assume "SmazMultilang_init D = Inr self \<and> i < i' \<and> i' < length D \<and> D ! i = D ! i'"
  then have "lookup_ok (DECODE self) (self_lookup self)"
    using SmazMultilang_init_lookup_ok by blast
  from compress_body_decodes[OF this, of "text"] obtain r where
    r: "compress_body self text = Inr r" and "decodes_to (DECODE self) r text"
    by blast
  then have "decompress self r = Inr text"
    by (simp add: decompress_decodes)
  with r show "\<exists>r. SmazMultilang_compress self text False = Inr r \<and> decompress self r = Inr text"
    by (cases "text = []") (auto simp: SmazMultilang_compress_def decompress_def)
next
  show "SmazMultilang_DECODE ! 152 = [100, 97, 115]" "SmazMultilang_DECODE ! 154 = [100, 97, 115]"
    "SmazMultilang_DECODE ! 142 = [100, 97, 110, 115]"
    "SmazMultilang_DECODE ! 161 = [100, 97, 110, 115]"
    by (simp_all add: SmazMultilang_DECODE_def)
next
  obtain inst where inst: "smaz_multilang_get_instance = Inr inst"
    and lk: "SmazMultilang_create_lookup SmazMultilang_DECODE = Inr (self_lookup inst)"
    using smaz_multilang_instance by blast
  have das: "SmazMultilang_DECODE ! 154 = [100, 97, 115]
      \<and> [100, 97, 115] \<notin> set (drop (Suc 154) (take 254 SmazMultilang_DECODE))"
    by (simp add: SmazMultilang_DECODE_def)
  have dans: "SmazMultilang_DECODE ! 161 = [100, 97, 110, 115]
      \<and> [100, 97, 110, 115] \<notin> set (drop (Suc 161) (take 254 SmazMultilang_DECODE))"
    by (simp add: SmazMultilang_DECODE_def)
  from SmazMultilang_create_lookup_eval[OF lk, of 154] das
  have "self_lookup inst [100, 97, 115] = Some [154]"
    by (simp add: length_SmazMultilang_DECODE)
  moreover from SmazMultilang_create_lookup_eval[OF lk, of 161] dans
  have "self_lookup inst [100, 97, 110, 115] = Some [161]"
    by (simp add: length_SmazMultilang_DECODE)
  ultimately show "\<exists>inst. smaz_multilang_get_instance = Inr inst
         \<and> self_lookup inst [100, 97, 115] = Some [154]
         \<and> self_lookup inst [100, 97, 110, 115] = Some [161]"
    using inst by blast
qed

theorem lookup_last_wins_witness:
  "SmazMultilang_create_lookup [[7], [7]] = Inr [[7] \<mapsto> [1]]
   \<and> SmazMultilang_init [[7], [7]] = Inr \<lparr>DECODE = [[7], [7]], self_lookup = [[7] \<mapsto> [1]]\<rparr>
   \<and> (0::nat) < 1 \<and> (1::nat) < length [[7], [7::nat]] \<and> (0::nat) < 254
   \<and> [[7], [7::nat]] ! 0 = [[7], [7]] ! 1
   \<and> [[7] \<mapsto> [1::nat]] ([[7], [7::nat]] ! 0) = Some [1]
   \<and> decompress \<lparr>DECODE = [[7], [7]], self_lookup = [[7] \<mapsto> [1]]\<rparr> [1] = Inr [7]
   \<and> SmazMultilang_compress \<lparr>DECODE = [[7], [7]], self_lookup = [[7] \<mapsto> [1]]\<rparr> [7, 7] False
       = Inr [1, 1]
   \<and> decompress \<lparr>DECODE = [[7], [7]], self_lookup = [[7] \<mapsto> [1]]\<rparr> [1, 1] = Inr [7, 7]"
proof -
  let ?D = "[[7], [7::nat]]"
  let ?lk = "[[7] \<mapsto> [1::nat]] :: str \<rightharpoonup> str"
  let ?self = "\<lparr>DECODE = ?D, self_lookup = ?lk\<rparr>"
  have c: "SmazMultilang_create_lookup ?D = Inr ?lk"
    by (simp add: SmazMultilang_create_lookup_def chr_def)
  then have i: "SmazMultilang_init ?D = Inr ?self"
    by (simp add: SmazMultilang_init_def)
  have l: "?lk (?D ! 0) = Some [1]"
    by simp
  have e: "SmazMultilang_compress ?self [7, 7] False = Inr [1, 1]"
    by (simp add: SmazMultilang_compress_def compress_body_def compress_loop.simps
        flush_verbatim_def chr_def slice_def worst_size_def Let_def find_match_numeral)
  from lookup_last_wins[of ?D ?lk 0 ?self 1 1 "[7, 7]"] c i l e
  show ?thesis
    by simp
qed

text \<open>
  C10. Characters, not bytes. With the ASCII check off, for an instance built by either
  constructor (\<open>Smaz\<close> from a table of at most 254 entries), both \<open>compress\<close> functions
  return the same stream, whatever code points the text holds. The stream is the
  serialisation of a sequence of units, and of only one such sequence: every index is below
  254 and names an entry of one to seven characters, every run holds 2 to 255 raw characters,
  and every control value (index, escape, length byte) is at most 255. What the units stand
  for, entry texts and raw characters, put end to end is the text itself, and \<open>decompress\<close>
  of the stream returns the text. With the shipped multilingual table, the text made of the
  code points 8364 (an entry of the table) and 20320 (in no entry) is compressed to the index
  247 followed by the literal 20320, and decompressed back.
\<close>

theorem code_points_carried:
  "((Smaz_init D = Inr self \<and> length D \<le> 254) \<or> SmazMultilang_init D = Inr self \<longrightarrow>
      (\<exists>r ts. compress self text False = Inr r \<and> SmazMultilang_compress self text False = Inr r
          \<and> r = concat (map serialize ts) \<and> list_all (token_ok D) ts
          \<and> (\<forall>t c. t \<in> set ts \<and> c \<in> set (controls t) \<longrightarrow> c \<le> 255)
          \<and> concat (map (expand D) ts) = text
          \<and> decompress self r = Inr text
          \<and> (\<forall>ts'. list_all (token_ok D) ts' \<and> r = concat (map serialize ts') \<longrightarrow> ts' = ts)))
   \<and> smaz_multilang_compress [8364, 20320] False = Inr [247, 254, 20320]
   \<and> smaz_multilang_decompress [247, 254, 20320] = Inr [8364, 20320]"
proof (intro conjI impI)
  assume "(Smaz_init D = Inr self \<and> length D \<le> 254) \<or> SmazMultilang_init D = Inr self"
  then have D: "DECODE self = D" and ok: "lookup_ok (DECODE self) (self_lookup self)"
    using init_lookup_ok[of D self] by auto
  from compress_tokens_roundtrip[OF ok, of "text"] D obtain r ts where
    r: "compress_body self text = Inr r" "r = concat (map serialize ts)"
    and all: "list_all (token_ok D) ts"
    and ex: "concat (map (expand D) ts) = text"
    and rt: "decompress self r = Inr text"
    by auto
  have ctl: "\<forall>t c. t \<in> set ts \<and> c \<in> set (controls t) \<longrightarrow> c \<le> 255"
    using all token_ok_controls[of D] by (auto simp: list_all_iff)
  have uniq: "\<forall>ts'. list_all (token_ok D) ts' \<and> r = concat (map serialize ts') \<longrightarrow> ts' = ts"
    using serialize_unique[OF _ all] r(2) by auto
  show "\<exists>r ts. compress self text False = Inr r \<and> SmazMultilang_compress self text False = Inr r
          \<and> r = concat (map serialize ts) \<and> list_all (token_ok D) ts
          \<and> (\<forall>t c. t \<in> set ts \<and> c \<in> set (controls t) \<longrightarrow> c \<le> 255)
          \<and> concat (map (expand D) ts) = text
          \<and> decompress self r = Inr text
          \<and> (\<forall>ts'. list_all (token_ok D) ts' \<and> r = concat (map serialize ts') \<longrightarrow> ts' = ts)"
  proof (cases "text = []")
    case False
    then have "compress self text False = Inr r" "SmazMultilang_compress self text False = Inr r"
      using r(1) by (simp_all add: compress_def SmazMultilang_compress_def)
    with r(2) all ctl ex rt uniq show ?thesis
      by blast
  next
    case True
    with ex have "ts = []"
    proof (cases ts)
      case (Cons t ts1)
      with all ex True show ?thesis
        by (cases t) auto
    qed simp
    with True r(2) have "compress self text False = Inr r"
      "SmazMultilang_compress self text False = Inr r"
      by (simp_all add: compress_def SmazMultilang_compress_def)
    with r(2) all ctl ex rt uniq show ?thesis
      by blast
  qed
next
  obtain inst where inst: "smaz_multilang_get_instance = Inr inst"
    and D: "DECODE inst = SmazMultilang_DECODE"
    and lk: "SmazMultilang_create_lookup SmazMultilang_DECODE = Inr (self_lookup inst)"
    using smaz_multilang_instance by blast
  have e: "SmazMultilang_DECODE ! 247 = [8364]
      \<and> [8364] \<notin> set (drop (Suc 247) (take 254 SmazMultilang_DECODE))
      \<and> [8364, 20320] \<notin> set (take 254 SmazMultilang_DECODE)
      \<and> [20320] \<notin> set (take 254 SmazMultilang_DECODE)"
    by (simp add: SmazMultilang_DECODE_def)
  from SmazMultilang_create_lookup_eval[OF lk, of 247] e
  have l1: "self_lookup inst [8364] = Some [247]"
    by (simp add: length_SmazMultilang_DECODE)
  from SmazMultilang_create_lookup_absent[OF lk] e
  have l2: "self_lookup inst [8364, 20320] = None" and l3: "self_lookup inst [20320] = None"
    by simp_all
  have c: "SmazMultilang_compress inst [8364, 20320] False = Inr [247, 254, 20320]"
    using l1 l2 l3
    by (simp add: SmazMultilang_compress_def compress_body_def compress_loop.simps
        flush_verbatim_def chr_def slice_def worst_size_def Let_def find_match_numeral)
  have d: "decompress inst [247, 254, 20320] = Inr [8364, 20320]"
    using D e by (simp add: decompress_decode_rest length_SmazMultilang_DECODE)
  show "smaz_multilang_compress [8364, 20320] False = Inr [247, 254, 20320]"
    unfolding smaz_multilang_compress_def inst by (simp add: c)
  show "smaz_multilang_decompress [247, 254, 20320] = Inr [8364, 20320]"
    unfolding smaz_multilang_decompress_def inst by (simp add: d)
qed

theorem code_points_carried_witness:
  "SmazMultilang_init [[8364]] = Inr \<lparr>DECODE = [[8364]], self_lookup = [[8364] \<mapsto> [0]]\<rparr>
   \<and> compress \<lparr>DECODE = [[8364]], self_lookup = [[8364] \<mapsto> [0]]\<rparr> [8364, 20320, 8364] False
       = Inr (concat (map serialize [Entry 0, Literal 20320, Entry 0]))
   \<and> list_all (token_ok [[8364]]) [Entry 0, Literal 20320, Entry 0]
   \<and> concat (map (expand [[8364]]) [Entry 0, Literal 20320, Entry 0]) = [8364, 20320, 8364]
   \<and> decompress \<lparr>DECODE = [[8364]], self_lookup = [[8364] \<mapsto> [0]]\<rparr> [0, 254, 20320, 0]
       = Inr [8364, 20320, 8364]"
proof -
  let ?self = "\<lparr>DECODE = [[8364]], self_lookup = [[8364] \<mapsto> [0]]\<rparr>"
  have i: "SmazMultilang_init [[8364]] = Inr ?self"
    by (simp add: SmazMultilang_init_def SmazMultilang_create_lookup_def chr_def)
  have c: "compress ?self [8364, 20320, 8364] False
             = Inr (concat (map serialize [Entry 0, Literal 20320, Entry 0]))"
    by (simp add: compress_def compress_body_def compress_loop.simps flush_verbatim_def chr_def
        slice_def worst_size_def Let_def find_match_numeral)
  have t: "list_all (token_ok [[8364]]) [Entry 0, Literal 20320, Entry 0]"
    by simp
  from code_points_carried[of "[[8364]]" ?self "[8364, 20320, 8364]"] i c t
  show ?thesis
    by auto
qed

end
